theory Spec2Isabelle
  imports Complex_Main
begin

section \<open>Data model\<close>

text \<open>
  The price feed keeps, per pool, candlestick series for ten fixed intervals and rolling
  volume sums. Prices and volumes are JavaScript numbers; they are modelled as reals, which
  agrees with the source wherever it only compares, takes \<open>Math.max\<close>/\<open>Math.min\<close> or copies
  finite values, and abstracts from rounding where it adds. Timestamps are readings of
  \<open>Date.now()\<close>, integers of milliseconds, for which \<open>Math.floor(t / ms) * ms\<close> is the
  integer \<open>t div ms * ms\<close> (for a non-zero \<open>ms\<close>).
\<close>

datatype interval = I1m | I5m | I15m | I30m | I1h | I6h | I12h | I24h | I1w | I1M

text \<open>A candle \<open>{timestamp, open, high, low, close}\<close>; \<open>open\<close> is written \<open>openp\<close>.\<close>

record candle =
  timestamp :: int
  openp :: real
  high :: real
  low :: real
  close :: real

text \<open>A raw sample \<open>{price, timestamp}\<close> of \<open>poolData.history\<close>.\<close>

record price_point =
  pp_price :: real
  pp_timestamp :: int

text \<open>The object \<open>poolData.volume\<close>, with the keys \<open>"24h"\<close>, \<open>"7d"\<close>, \<open>"30d"\<close>, \<open>total\<close>, \<open>lastReset\<close>.\<close>

record volume_sums =
  vol_24h :: real
  vol_7d :: real
  vol_30d :: real
  vol_total :: real
  lastReset :: int

text \<open>An element \<open>{volume, timestamp}\<close> of the array \<open>volumeHistory\<close>.\<close>

record volume_entry =
  ve_volume :: real
  ve_timestamp :: int

record poolData =
  latestPrice :: "real option"
  history :: "price_point list"
  lastUpdated :: "int option"
  ohlc :: "interval \<Rightarrow> candle list"
  volume :: volume_sums

text \<open>\<open>DATAPOINT_LIMITS\<close>: the cap on the number of candles kept per interval.\<close>

fun DATAPOINT_LIMITS :: "interval \<Rightarrow> nat" where
  "DATAPOINT_LIMITS I1m = 100"
| "DATAPOINT_LIMITS I5m = 100"
| "DATAPOINT_LIMITS I15m = 100"
| "DATAPOINT_LIMITS I30m = 100"
| "DATAPOINT_LIMITS I1h = 100"
| "DATAPOINT_LIMITS I6h = 100"
| "DATAPOINT_LIMITS I12h = 100"
| "DATAPOINT_LIMITS I24h = 100"
| "DATAPOINT_LIMITS I1w = 100"
| "DATAPOINT_LIMITS I1M = 100"

text \<open>\<open>createPoolData\<close>, with the reading of \<open>Date.now()\<close> as its argument.\<close>

definition createPoolData :: "int \<Rightarrow> poolData" where
  "createPoolData now =
     \<lparr>latestPrice = None, history = [], lastUpdated = None, ohlc = (\<lambda>_. []),
      volume = \<lparr>vol_24h = 0, vol_7d = 0, vol_30d = 0, vol_total = 0, lastReset = now\<rparr>\<rparr>"

section \<open>Candle aggregator\<close>

text \<open>
  The table \<open>intervals\<close> of \<open>updateOHLCData\<close>, in the order \<open>Object.entries\<close> visits it,
  with the widths in milliseconds.
\<close>

definition intervals :: "(interval \<times> int) list" where
  "intervals =
     [(I1m, 1 * 60 * 1000), (I5m, 5 * 60 * 1000), (I15m, 15 * 60 * 1000),
      (I30m, 30 * 60 * 1000), (I1h, 60 * 60 * 1000), (I6h, 6 * 60 * 60 * 1000),
      (I12h, 12 * 60 * 60 * 1000), (I24h, 24 * 60 * 60 * 1000),
      (I1w, 7 * 24 * 60 * 60 * 1000), (I1M, 30 * 24 * 60 * 60 * 1000)]"

fun interval_ms :: "interval \<Rightarrow> int" where
  "interval_ms I1m = 60000"
| "interval_ms I5m = 300000"
| "interval_ms I15m = 900000"
| "interval_ms I30m = 1800000"
| "interval_ms I1h = 3600000"
| "interval_ms I6h = 21600000"
| "interval_ms I12h = 43200000"
| "interval_ms I24h = 86400000"
| "interval_ms I1w = 604800000"
| "interval_ms I1M = 2592000000"

text \<open>
  The first half of the loop body of \<open>updateOHLCData\<close> (multi-pool service): push a new
  candle when the list is empty or the last candle's window has elapsed, otherwise update
  the last candle in place.
\<close>

definition foldSample :: "int \<Rightarrow> candle list \<Rightarrow> real \<Rightarrow> int \<Rightarrow> candle list" where
  "foldSample ms currentOHLC price ts =
     (if currentOHLC = [] \<or> ts \<ge> timestamp (last currentOHLC) + ms then
        currentOHLC @
          [\<lparr>timestamp = ts div ms * ms,
            openp = (if currentOHLC \<noteq> [] then close (last currentOHLC) else price),
            high = price, low = price, close = price\<rparr>]
      else
        butlast currentOHLC @
          [(last currentOHLC)
             \<lparr>high := max (high (last currentOHLC)) price,
              low := min (low (last currentOHLC)) price,
              close := price\<rparr>])"

text \<open>The second half: \<open>slice(-limit)\<close> when the list is longer than the limit.\<close>

definition limitCandles :: "nat \<Rightarrow> candle list \<Rightarrow> candle list" where
  "limitCandles limit currentOHLC =
     (if length currentOHLC > limit then drop (length currentOHLC - limit) currentOHLC
      else currentOHLC)"

definition updateInterval :: "interval \<Rightarrow> int \<Rightarrow> candle list \<Rightarrow> real \<Rightarrow> int \<Rightarrow> candle list" where
  "updateInterval iv ms currentOHLC price ts =
     limitCandles (DATAPOINT_LIMITS iv) (foldSample ms currentOHLC price ts)"

definition updateOHLCData :: "poolData \<Rightarrow> real \<Rightarrow> int \<Rightarrow> poolData" where
  "updateOHLCData poolData price ts =
     poolData\<lparr>ohlc :=
       fold (\<lambda>(iv, ms) m. m(iv := updateInterval iv ms (m iv) price ts)) intervals
         (ohlc poolData)\<rparr>"

text \<open>A run of the aggregator: one \<open>updateOHLCData\<close> call per sample, in order.\<close>

definition updateAll :: "poolData \<Rightarrow> (real \<times> int) list \<Rightarrow> poolData" where
  "updateAll poolData samples = fold (\<lambda>(price, ts) p. updateOHLCData p price ts) samples poolData"

subsection \<open>The single-pool service (index.js)\<close>

text \<open>
  \<open>index.js\<close> holds a second \<open>updateOHLCData\<close>, over the global \<open>priceData\<close>. Its candles
  carry a sixth field \<open>volume\<close>, the number of samples folded in.
\<close>

record legacy_candle =
  lc_timestamp :: int
  lc_open :: real
  lc_high :: real
  lc_low :: real
  lc_close :: real
  lc_volume :: int

fun maxCandles :: "interval \<Rightarrow> nat" where
  "maxCandles iv = 100"

definition updateInterval_index_js ::
    "interval \<Rightarrow> int \<Rightarrow> legacy_candle list \<Rightarrow> real \<Rightarrow> int \<Rightarrow> legacy_candle list" where
  "updateInterval_index_js iv ms currentOHLC price ts =
     (let pushed =
        (if currentOHLC = [] \<or> ts \<ge> lc_timestamp (last currentOHLC) + ms then
           currentOHLC @
             [\<lparr>lc_timestamp = ts div ms * ms, lc_open = price, lc_high = price,
               lc_low = price, lc_close = price, lc_volume = 1\<rparr>]
         else
           butlast currentOHLC @
             [(last currentOHLC)
                \<lparr>lc_high := max (lc_high (last currentOHLC)) price,
                 lc_low := min (lc_low (last currentOHLC)) price,
                 lc_close := price,
                 lc_volume := lc_volume (last currentOHLC) + 1\<rparr>])
      in if length pushed > maxCandles iv then drop (length pushed - maxCandles iv) pushed
         else pushed)"

definition updateOHLCData_index_js ::
    "(interval \<Rightarrow> legacy_candle list) \<Rightarrow> real \<Rightarrow> int \<Rightarrow> (interval \<Rightarrow> legacy_candle list)" where
  "updateOHLCData_index_js priceData_ohlc price ts =
     fold (\<lambda>(iv, ms) m. m(iv := updateInterval_index_js iv ms (m iv) price ts)) intervals
       priceData_ohlc"

subsection \<open>Concrete inputs\<close>

text \<open>
  Scenario A of the specification: three samples at \<open>t0\<close>, \<open>t0 + 30 s\<close> and \<open>t0 + 90 s\<close>,
  fed into a fresh series. \<open>scenarioA_t0\<close> is a minute boundary.
\<close>

definition scenarioA_samples :: "int \<Rightarrow> (real \<times> int) list" where
  "scenarioA_samples t0 = [(10, t0), (12, t0 + 30000), (9, t0 + 90000)]"

definition scenarioA_t0 :: int where
  "scenarioA_t0 = 1717200000000"

text \<open>
  The one-minute series of the single-pool service after the first two samples of
  scenario A: one candle, opened at \<open>scenarioA_t0\<close>.
\<close>

definition legacy_series :: "interval \<Rightarrow> legacy_candle list" where
  "legacy_series =
     (\<lambda>_. [])(I1m :=
       [\<lparr>lc_timestamp = 1717200000000, lc_open = 10, lc_high = 12, lc_low = 10,
         lc_close = 12, lc_volume = 2\<rparr>])"


section \<open>Continuity repair\<close>

text \<open>
  The \<open>for\<close> loop of \<open>validateAndFixOHLCContinuity\<close> over one interval's candles, from
  index \<open>i\<close>, with the running \<open>fixCount\<close>.
\<close>

function fixLoop :: "nat \<Rightarrow> candle list \<Rightarrow> nat \<Rightarrow> candle list \<times> nat" where
  "fixLoop i candles fixCount =
     (if i < length candles then
        (if close (candles ! (i - 1)) \<noteq> openp (candles ! i) then
           fixLoop (i + 1)
             (candles[i := (candles ! i)\<lparr>openp := close (candles ! (i - 1))\<rparr>])
             (fixCount + 1)
         else fixLoop (i + 1) candles fixCount)
      else (candles, fixCount))"
  by pat_completeness auto
termination
  by (relation "measure (\<lambda>(i, candles, fixCount). length candles - i)") auto

declare fixLoop.simps [simp del]

text \<open>The keys of \<open>poolData.ohlc\<close>, in the order \<open>Object.entries\<close> visits them.\<close>

definition ohlc_keys :: "interval list" where
  "ohlc_keys = [I1m, I5m, I15m, I30m, I1h, I6h, I12h, I24h, I1w, I1M]"

definition fixInterval :: "interval \<Rightarrow> poolData \<times> nat \<Rightarrow> poolData \<times> nat" where
  "fixInterval iv st =
     (case st of (poolData, fixCount) \<Rightarrow>
        (case fixLoop 1 (ohlc poolData iv) fixCount of
           (candles, fixCount') \<Rightarrow> (poolData\<lparr>ohlc := (ohlc poolData)(iv := candles)\<rparr>, fixCount')))"

definition validateAndFixOHLCContinuity :: "poolData \<Rightarrow> poolData \<times> nat" where
  "validateAndFixOHLCContinuity poolData = fold fixInterval ohlc_keys (poolData, 0)"

text \<open>
  Scenario C of the specification: a loaded document whose one-hour series has
  \<open>candle[3].close = 100\<close> and \<open>candle[4].open = 105\<close>, and is continuous elsewhere.
\<close>

definition scenarioC_series :: poolData where
  "scenarioC_series =
     (createPoolData 0)\<lparr>ohlc := (\<lambda>_. [])(I1h :=
        [\<lparr>timestamp = 0, openp = 90, high = 95, low = 90, close = 95\<rparr>,
         \<lparr>timestamp = 3600000, openp = 95, high = 97, low = 94, close = 96\<rparr>,
         \<lparr>timestamp = 7200000, openp = 96, high = 99, low = 96, close = 98\<rparr>,
         \<lparr>timestamp = 10800000, openp = 98, high = 101, low = 98, close = 100\<rparr>,
         \<lparr>timestamp = 14400000, openp = 105, high = 106, low = 103, close = 104\<rparr>,
         \<lparr>timestamp = 18000000, openp = 104, high = 104, low = 102, close = 103\<rparr>])\<rparr>"

text \<open>
  In the specification's words: the indices \<open>i \<ge> 1\<close> of a candle list at which
  \<open>candle[i-1].close \<noteq> candle[i].open\<close>.
\<close>

definition continuity_violations :: "candle list \<Rightarrow> nat list" where
  "continuity_violations cs =
     filter (\<lambda>i. close (cs ! (i - 1)) \<noteq> openp (cs ! i)) [1..<length cs]"

definition scenarioC_repaired :: poolData where
  "scenarioC_repaired =
     (createPoolData 0)\<lparr>ohlc := (\<lambda>_. [])(I1h :=
        [\<lparr>timestamp = 0, openp = 90, high = 95, low = 90, close = 95\<rparr>,
         \<lparr>timestamp = 3600000, openp = 95, high = 97, low = 94, close = 96\<rparr>,
         \<lparr>timestamp = 7200000, openp = 96, high = 99, low = 96, close = 98\<rparr>,
         \<lparr>timestamp = 10800000, openp = 98, high = 101, low = 98, close = 100\<rparr>,
         \<lparr>timestamp = 14400000, openp = 100, high = 106, low = 103, close = 104\<rparr>,
         \<lparr>timestamp = 18000000, openp = 104, high = 104, low = 102, close = 103\<rparr>])\<rparr>"

section \<open>Interval derivation\<close>

text \<open>
  \<open>result.find(c => c.timestamp === targetTimestamp)\<close> returns the first matching object
  of \<open>result\<close>, which the caller then mutates in place: \<open>replaceFirst\<close> is that mutation.
\<close>

fun replaceFirst :: "('a \<Rightarrow> bool) \<Rightarrow> ('a \<Rightarrow> 'a) \<Rightarrow> 'a list \<Rightarrow> 'a list" where
  "replaceFirst P f [] = []"
| "replaceFirst P f (x # xs) = (if P x then f x # xs else x # replaceFirst P f xs)"

text \<open>The callback of \<open>sourceCandles.forEach\<close> in \<open>generateLongerInterval\<close>.\<close>

definition mergeCandle :: "int \<Rightarrow> candle list \<Rightarrow> candle \<Rightarrow> candle list" where
  "mergeCandle targetIntervalMs result candle =
     (let targetTimestamp = timestamp candle div targetIntervalMs * targetIntervalMs in
      case List.find (\<lambda>c. timestamp c = targetTimestamp) result of
        None \<Rightarrow>
          result @
            [\<lparr>timestamp = targetTimestamp, openp = openp candle, high = high candle,
              low = low candle, close = close candle\<rparr>]
      | Some _ \<Rightarrow>
          replaceFirst (\<lambda>c. timestamp c = targetTimestamp)
            (\<lambda>targetCandle. targetCandle
               \<lparr>high := max (high targetCandle) (high candle),
                low := min (low targetCandle) (low candle),
                close := close candle\<rparr>)
            result)"

text \<open>
  \<open>generateLongerInterval\<close>; the final \<open>sort\<close> by \<open>a.timestamp - b.timestamp\<close> is a stable
  sort on the timestamp.
\<close>

definition generateLongerInterval :: "candle list \<Rightarrow> int \<Rightarrow> candle list" where
  "generateLongerInterval sourceCandles targetIntervalMs =
     (if sourceCandles = [] then []
      else sort_key timestamp
             (fold (\<lambda>candle result. mergeCandle targetIntervalMs result candle) sourceCandles []))"

subsection \<open>Derivation in the specification's words\<close>

definition targetBucket :: "int \<Rightarrow> candle \<Rightarrow> int" where
  "targetBucket targetWidth c = timestamp c div targetWidth * targetWidth"

text \<open>The source candles of one target bucket, in the order of the source list.\<close>

definition bucketCandles :: "int \<Rightarrow> candle list \<Rightarrow> int \<Rightarrow> candle list" where
  "bucketCandles targetWidth src b = filter (\<lambda>c. targetBucket targetWidth c = b) src"

text \<open>
  The target candle of a bucket: seeded by the bucket's first source candle, with the
  maximum of the highs, the minimum of the lows and the close of the bucket's last source
  candle.
\<close>

definition mergedCandle :: "int \<Rightarrow> candle list \<Rightarrow> candle" where
  "mergedCandle b cs =
     \<lparr>timestamp = b, openp = openp (hd cs), high = Max (set (map high cs)),
      low = Min (set (map low cs)), close = close (last cs)\<rparr>"

definition deriveInterval :: "candle list \<Rightarrow> int \<Rightarrow> candle list" where
  "deriveInterval src targetWidth =
     map (\<lambda>b. mergedCandle b (bucketCandles targetWidth src b))
       (sorted_list_of_set (set (map (targetBucket targetWidth) src)))"

text \<open>
  Three hourly candles in timestamp order, the first two in the same six-hour bucket; and
  two hourly candles of one six-hour bucket stored in reverse order.
\<close>

definition hourly_source :: "candle list" where
  "hourly_source =
     [\<lparr>timestamp = 0, openp = 10, high = 12, low = 9, close = 11\<rparr>,
      \<lparr>timestamp = 3600000, openp = 11, high = 15, low = 8, close = 14\<rparr>,
      \<lparr>timestamp = 21600000, openp = 14, high = 16, low = 13, close = 13\<rparr>]"

definition unsorted_source :: "candle list" where
  "unsorted_source =
     [\<lparr>timestamp = 3600000, openp = 11, high = 15, low = 8, close = 14\<rparr>,
      \<lparr>timestamp = 0, openp = 10, high = 12, low = 9, close = 11\<rparr>]"

section \<open>Volume window tracker\<close>

text \<open>
  \<open>volumeHistory.filter(v => v.timestamp >= cutoff).reduce((sum, v) => sum + v.volume, 0)\<close>.
\<close>

definition windowSum :: "int \<Rightarrow> volume_entry list \<Rightarrow> real" where
  "windowSum cutoff volHist =
     foldl (\<lambda>sum v. sum + ve_volume v) 0 (filter (\<lambda>v. ve_timestamp v \<ge> cutoff) volHist)"

text \<open>
  \<open>updateVolume\<close>, over the pool's data and the module-level array \<open>volumeHistory\<close>, with
  the reading of \<open>Date.now()\<close> as an argument; it returns both as it leaves them. The
  closing \<open>while\<close> loop shifts entries off the head for as long as the head is older than
  the cutoff, which is \<open>dropWhile\<close>.
\<close>

definition updateVolume ::
    "poolData \<Rightarrow> volume_entry list \<Rightarrow> real \<Rightarrow> int \<Rightarrow> poolData \<times> volume_entry list" where
  "updateVolume poolData volHist volumeInUSD now =
     (let pushed = volHist @ [\<lparr>ve_volume = volumeInUSD, ve_timestamp = now\<rparr>];
          dayAgo = now - 24 * 60 * 60 * 1000;
          weekAgo = now - 7 * 24 * 60 * 60 * 1000;
          monthAgo = now - 30 * 24 * 60 * 60 * 1000;
          cutoffTime = monthAgo
      in (poolData\<lparr>volume := (volume poolData)
            \<lparr>vol_total := vol_total (volume poolData) + volumeInUSD,
             vol_24h := windowSum dayAgo pushed,
             vol_7d := windowSum weekAgo pushed,
             vol_30d := windowSum monthAgo pushed\<rparr>\<rparr>,
          dropWhile (\<lambda>v. ve_timestamp v < cutoffTime) pushed))"

subsection \<open>The pools and the shared log\<close>

text \<open>
  The module-level state that volume accounting touches: the map \<open>poolsData\<close>, keyed by the
  lower-cased pool address, and the single array \<open>volumeHistory\<close>.
\<close>

record service =
  poolsData :: "string \<rightharpoonup> poolData"
  volumeHistory :: "volume_entry list"

text \<open>\<open>String.prototype.toLowerCase\<close> on ASCII text.\<close>

definition toLowerCase :: "string \<Rightarrow> string" where
  "toLowerCase s =
     map (\<lambda>c. case map_of (zip ''ABCDEFGHIJKLMNOPQRSTUVWXYZ'' ''abcdefghijklmnopqrstuvwxyz'') c of
                 None \<Rightarrow> c | Some l \<Rightarrow> l) s"

text \<open>\<open>getPoolData\<close>: the pool's data, created on first reference.\<close>

definition getPoolData :: "service \<Rightarrow> string \<Rightarrow> int \<Rightarrow> poolData \<times> service" where
  "getPoolData st poolAddress now =
     (let normalizedAddress = toLowerCase poolAddress in
      case poolsData st normalizedAddress of
        None \<Rightarrow>
          (createPoolData now,
           st\<lparr>poolsData := (poolsData st)(normalizedAddress \<mapsto> createPoolData now)\<rparr>)
      | Some poolData \<Rightarrow> (poolData, st))"

text \<open>
  What \<open>queryPastEvents\<close> does with the volume of one decoded swap of a pool:
  \<open>updateVolume(getPoolData(poolAddress), volumeUSD)\<close>. The object returned by
  \<open>getPoolData\<close> is the one stored in the map, so its mutation is written back under the
  pool's key.
\<close>

definition recordSwapVolume :: "service \<Rightarrow> string \<Rightarrow> real \<Rightarrow> int \<Rightarrow> service" where
  "recordSwapVolume st poolAddress volumeUSD now =
     (case getPoolData st poolAddress now of
        (poolData, st1) \<Rightarrow>
          (case updateVolume poolData (volumeHistory st1) volumeUSD now of
             (poolData', volHist') \<Rightarrow>
               st1\<lparr>poolsData := (poolsData st1)(toLowerCase poolAddress \<mapsto> poolData'),
                   volumeHistory := volHist'\<rparr>))"

text \<open>
  A log whose head is stamped one second after the clock reading 4000000000 and whose
  second entry is more than 30 days older than that reading.
\<close>

definition stale_log :: "volume_entry list" where
  "stale_log =
     [\<lparr>ve_volume = 5, ve_timestamp = 4000001000\<rparr>,
      \<lparr>ve_volume = 7, ve_timestamp = 1000000000\<rparr>]"

text \<open>A log in timestamp order: one entry 40 days old, one 2 days old, one an hour old.\<close>

definition ordered_log :: "volume_entry list" where
  "ordered_log =
     [\<lparr>ve_volume = 7, ve_timestamp = 544000000\<rparr>,
      \<lparr>ve_volume = 5, ve_timestamp = 3827200000\<rparr>,
      \<lparr>ve_volume = 3, ve_timestamp = 3996400000\<rparr>]"

text \<open>Two pools and a service that has seen neither.\<close>

definition poolA :: string where
  "poolA = ''0xBb7EfF3E685c6564F2F09DD90b6C05754E3BDAC0''"

definition poolB :: string where
  "poolB = ''0x222705B830a38654B46340A99F5F3f1718A5C95d''"

definition fresh_service :: service where
  "fresh_service = \<lparr>poolsData = Map.empty, volumeHistory = []\<rparr>"

section \<open>Candle queries\<close>

text \<open>\<open>mapInterval\<close>: the interval key of an interval token, or \<open>null\<close>.\<close>

definition mapInterval :: "string \<Rightarrow> interval option" where
  "mapInterval interval =
     (if interval = ''1'' \<or> interval = ''1m'' then Some I1m
      else if interval = ''5'' \<or> interval = ''5m'' then Some I5m
      else if interval = ''15'' \<or> interval = ''15m'' then Some I15m
      else if interval = ''30'' \<or> interval = ''30m'' then Some I30m
      else if interval = ''60'' \<or> interval = ''1h'' \<or> interval = ''1hour'' then Some I1h
      else if interval = ''360'' \<or> interval = ''6'' \<or> interval = ''6h'' then Some I6h
      else if interval = ''720'' \<or> interval = ''12'' \<or> interval = ''12h'' then Some I12h
      else if interval = ''1440'' \<or> interval = ''24'' \<or> interval = ''24h'' then Some I24h
      else if interval = ''1w'' \<or> interval = ''week'' then Some I1w
      else if interval = ''1M'' \<or> interval = ''month'' then Some I1M
      else None)"

subsection \<open>The built-in \<open>parseInt\<close>\<close>

text \<open>
  \<open>parseInt\<close> of a string, without a radix, on ASCII text: leading white space is
  skipped, then an optional sign, then an optional \<open>0x\<close> or \<open>0X\<close> that selects radix 16;
  the value is that of the longest run of digits that follows, and \<open>NaN\<close> (here \<open>None\<close>)
  when there is none.
\<close>

definition isWhiteSpace :: "char \<Rightarrow> bool" where
  "isWhiteSpace c \<longleftrightarrow> c \<in> set [CHR '' '', CHR 0x09, CHR 0x0A, CHR 0x0B, CHR 0x0C, CHR 0x0D]"

definition digitValue :: "char \<Rightarrow> nat option" where
  "digitValue c =
     map_of (zip ''0123456789abcdefABCDEF''
               [0, 1, 2, 3, 4, 5, 6, 7, 8, 9, 10, 11, 12, 13, 14, 15, 10, 11, 12, 13, 14, 15]) c"

definition isRadixDigit :: "nat \<Rightarrow> char \<Rightarrow> bool" where
  "isRadixDigit R c = (case digitValue c of None \<Rightarrow> False | Some d \<Rightarrow> d < R)"

definition digitsValue :: "nat \<Rightarrow> string \<Rightarrow> int" where
  "digitsValue R Z =
     foldl (\<lambda>acc c. acc * int R + (case digitValue c of None \<Rightarrow> 0 | Some d \<Rightarrow> int d)) 0 Z"

definition parseInt :: "string \<Rightarrow> int option" where
  "parseInt inputString =
     (let S = dropWhile isWhiteSpace inputString;
          sign = (if S \<noteq> [] \<and> hd S = CHR ''-'' then - 1 else 1);
          S1 = (if S \<noteq> [] \<and> (hd S = CHR ''+'' \<or> hd S = CHR ''-'') then tl S else S);
          hex = (take 2 S1 = ''0x'' \<or> take 2 S1 = ''0X'');
          R = (if hex then 16 else 10);
          S2 = (if hex then drop 2 S1 else S1);
          Z = takeWhile (isRadixDigit R) S2
      in if Z = [] then None else Some (sign * digitsValue R Z))"

subsection \<open>Filtering and limiting\<close>

text \<open>
  A timestamp bound of a query is \<open>null\<close> or a number; \<open>truthy\<close> is its truth value as a
  JavaScript condition (\<open>null\<close> and \<open>0\<close> are falsy).
\<close>

fun truthy :: "int option \<Rightarrow> bool" where
  "truthy None = False"
| "truthy (Some n) = (n \<noteq> 0)"

definition filterOHLCByTimeRange :: "candle list \<Rightarrow> int option \<Rightarrow> int option \<Rightarrow> candle list" where
  "filterOHLCByTimeRange ohlcData fromTimestamp toTimestamp =
     (if ohlcData = [] then []
      else filter (\<lambda>candle.
             let candleTime = timestamp candle;
                 afterFrom = (\<not> truthy fromTimestamp \<or> candleTime \<ge> the fromTimestamp);
                 beforeTo = (\<not> truthy toTimestamp \<or> candleTime \<le> the toTimestamp)
             in afterFrom \<and> beforeTo) ohlcData)"

definition limitDatapoints :: "candle list \<Rightarrow> interval \<Rightarrow> candle list" where
  "limitDatapoints data intervalKey =
     (if data = [] then data
      else let limit = (if DATAPOINT_LIMITS intervalKey \<noteq> 0 then DATAPOINT_LIMITS intervalKey
                        else 100)
           in if length data \<le> limit then data else drop (length data - limit) data)"

subsection \<open>The handler of \<open>GET /api/price/query\<close>\<close>

text \<open>The JSON body of a successful reply, and a reply: a 400 with its error text, or the body.\<close>

record query_reply =
  qr_interval :: interval
  qr_from_timestamp :: "int option"
  qr_to_timestamp :: "int option"
  qr_count :: nat
  qr_ohlc :: "candle list"
  qr_lastUpdated :: "int option"

datatype response = Status400 string | Json query_reply

text \<open>
  The parsing of one timestamp parameter: the variable stays \<open>null\<close> when the parameter is
  absent or empty, and the handler returns a 400 (here \<open>None\<close>) when \<open>parseInt\<close> gives
  \<open>NaN\<close>.
\<close>

definition parseTimestampParam :: "string option \<Rightarrow> int option option" where
  "parseTimestampParam param =
     (case param of
        None \<Rightarrow> Some None
      | Some s \<Rightarrow>
          if s = [] then Some None
          else (case parseInt s of None \<Rightarrow> None | Some n \<Rightarrow> Some (Some n)))"

text \<open>
  The handler, after the \<open>parsePoolAddress\<close> middleware, on the pool's data and the query
  parameters \<open>req.query\<close>. It reads \<open>interval\<close>, \<open>from_timestamp\<close> and \<open>to_timestamp\<close> and no
  other parameter.
\<close>

definition price_query :: "poolData \<Rightarrow> (string \<rightharpoonup> string) \<Rightarrow> response" where
  "price_query poolData query =
     (case query ''interval'' of
        None \<Rightarrow> Status400 ''Missing required parameter: interval''
      | Some interval \<Rightarrow>
          if interval = [] then Status400 ''Missing required parameter: interval''
          else
            (case mapInterval interval of
               None \<Rightarrow> Status400 ''Invalid interval parameter''
             | Some intervalKey \<Rightarrow>
                 (case parseTimestampParam (query ''from_timestamp'') of
                    None \<Rightarrow> Status400
                        ''Invalid from_timestamp parameter. Must be a valid Unix timestamp in milliseconds.''
                  | Some fromTimestamp \<Rightarrow>
                      (case parseTimestampParam (query ''to_timestamp'') of
                         None \<Rightarrow> Status400
                             ''Invalid to_timestamp parameter. Must be a valid Unix timestamp in milliseconds.''
                       | Some toTimestamp \<Rightarrow>
                           if truthy fromTimestamp \<and> truthy toTimestamp
                              \<and> the fromTimestamp > the toTimestamp
                           then Status400 ''from_timestamp cannot be greater than to_timestamp''
                           else
                             (let ohlcData = ohlc poolData intervalKey;
                                  filteredData =
                                    filterOHLCByTimeRange ohlcData fromTimestamp toTimestamp;
                                  limitedData = limitDatapoints filteredData intervalKey
                              in Json \<lparr>qr_interval = intervalKey,
                                       qr_from_timestamp = fromTimestamp,
                                       qr_to_timestamp = toTimestamp,
                                       qr_count = length limitedData,
                                       qr_ohlc = limitedData,
                                       qr_lastUpdated = lastUpdated poolData\<rparr>)))))"

subsection \<open>Queries in the specification's words\<close>

text \<open>The candles whose timestamp lies in the inclusive range \<open>[from, to]\<close>.\<close>

definition inRange :: "int \<Rightarrow> int \<Rightarrow> candle list \<Rightarrow> candle list" where
  "inRange from to cs = filter (\<lambda>c. from \<le> timestamp c \<and> timestamp c \<le> to) cs"

text \<open>
  At most \<open>limit\<close> entries of a list: \<open>keepLast\<close> are the entries kept, the last ones in
  list order, and \<open>dropFirst\<close> the entries left out, the ones before them.
\<close>

definition keepLast :: "nat \<Rightarrow> 'a list \<Rightarrow> 'a list" where
  "keepLast limit xs = drop (length xs - limit) xs"

definition dropFirst :: "nat \<Rightarrow> 'a list \<Rightarrow> 'a list" where
  "dropFirst limit xs = take (length xs - limit) xs"

text \<open>
  Scenario B of the specification: a series with 20 one-hour candles, at the hours 1 to 20,
  and a query for the range that holds them all with \<open>limit=5\<close>; and the same query
  without the limit and with \<open>to_timestamp=0\<close>.
\<close>

definition twenty_hours :: poolData where
  "twenty_hours =
     (createPoolData 0)\<lparr>ohlc := (\<lambda>_. [])(I1h :=
        map (\<lambda>i. \<lparr>timestamp = 3600000 * i, openp = 100, high = 100, low = 100, close = 100\<rparr>)
          [1, 2, 3, 4, 5, 6, 7, 8, 9, 10, 11, 12, 13, 14, 15, 16, 17, 18, 19, 20])\<rparr>"

definition query_limit5 :: "string \<rightharpoonup> string" where
  "query_limit5 =
     [''interval'' \<mapsto> ''1h'', ''from_timestamp'' \<mapsto> ''3600000'',
      ''to_timestamp'' \<mapsto> ''72000000'', ''limit'' \<mapsto> ''5'']"

definition query_to_zero :: "string \<rightharpoonup> string" where
  "query_to_zero =
     [''interval'' \<mapsto> ''1h'', ''from_timestamp'' \<mapsto> ''3600000'', ''to_timestamp'' \<mapsto> ''0'']"

text \<open>
  A series with 101 one-hour candles in timestamp order, at the hours 1 to 101, and a query
  for the range that holds them all.
\<close>

definition hour_candle :: "int \<Rightarrow> candle" where
  "hour_candle i =
     \<lparr>timestamp = 3600000 * i, openp = 100, high = 100, low = 100, close = 100\<rparr>"

definition hundred_one_hours :: poolData where
  "hundred_one_hours = (createPoolData 0)\<lparr>ohlc := (\<lambda>_. [])(I1h := map hour_candle [1..101])\<rparr>"

definition query_all_hours :: "string \<rightharpoonup> string" where
  "query_all_hours =
     [''interval'' \<mapsto> ''1h'', ''from_timestamp'' \<mapsto> ''3600000'',
      ''to_timestamp'' \<mapsto> ''363600000'']"

section \<open>Properties of the candle aggregator\<close>

lemma ohlc_updateOHLCData:
  "ohlc (updateOHLCData p price ts) iv =
     updateInterval iv (interval_ms iv) (ohlc p iv) price ts"
  by (cases iv) (simp_all add: updateOHLCData_def intervals_def)

lemma length_limitCandles: "length (limitCandles n cs) \<le> n"
  by (simp add: limitCandles_def)

text \<open>
  C5. After \<open>updateOHLCData\<close>, every interval holds at most its datapoint cap, which is 100
  for every interval, and what it holds is the list produced by folding the sample in with
  the oldest candles (the head) dropped.
\<close>

theorem C5_candle_cap:
  "length (ohlc (updateOHLCData p price ts) iv) \<le> DATAPOINT_LIMITS iv
   \<and> DATAPOINT_LIMITS iv = 100
   \<and> ohlc (updateOHLCData p price ts) iv =
       drop (length (foldSample (interval_ms iv) (ohlc p iv) price ts) - 100)
         (foldSample (interval_ms iv) (ohlc p iv) price ts)"
proof -
  have cap: "DATAPOINT_LIMITS iv = 100"
    by (cases iv) simp_all
  have "length (ohlc (updateOHLCData p price ts) iv) \<le> DATAPOINT_LIMITS iv"
    by (simp add: ohlc_updateOHLCData updateInterval_def length_limitCandles)
  moreover have "ohlc (updateOHLCData p price ts) iv =
       drop (length (foldSample (interval_ms iv) (ohlc p iv) price ts) - 100)
         (foldSample (interval_ms iv) (ohlc p iv) price ts)"
    by (simp add: ohlc_updateOHLCData updateInterval_def limitCandles_def cap)
  ultimately show ?thesis using cap by simp
qed

lemma ohlc_updateOHLCData_index_js:
  "updateOHLCData_index_js m price ts iv =
     updateInterval_index_js iv (interval_ms iv) (m iv) price ts"
  by (cases iv) (simp_all add: updateOHLCData_index_js_def intervals_def)

text \<open>
  In the multi-pool service a candle pushed by \<open>updateOHLCData\<close> opens at the close of the
  candle before it, or at the sample's price when there is none, and has high, low and
  close at the sample's price.
\<close>

lemma foldSample_new_candle:
  assumes "cs = [] \<or> ts \<ge> timestamp (last cs) + ms"
  shows "foldSample ms cs price ts =
           cs @ [\<lparr>timestamp = ts div ms * ms,
                   openp = (if cs = [] then price else close (last cs)),
                   high = price, low = price, close = price\<rparr>]"
  using assms by (auto simp: foldSample_def)

lemma updateOHLCData_opens_candle:
  assumes "ohlc p iv = [] \<or> ts \<ge> timestamp (last (ohlc p iv)) + interval_ms iv"
  shows "last (ohlc (updateOHLCData p price ts) iv) =
           \<lparr>timestamp = ts div interval_ms iv * interval_ms iv,
             openp = (if ohlc p iv = [] then price else close (last (ohlc p iv))),
             high = price, low = price, close = price\<rparr>"
proof -
  have "DATAPOINT_LIMITS iv = 100"
    by (cases iv) simp_all
  then show ?thesis
    by (simp add: ohlc_updateOHLCData updateInterval_def limitCandles_def
        foldSample_new_candle [OF assms])
qed

text \<open>
  C1. The single-pool \<open>updateOHLCData\<close> of \<open>index.js\<close> opens every new candle at the
  sample's price: with one candle closed at 12, the sample 9 arriving 90 s after that candle
  opened starts a candle whose open is 9, not 12.
\<close>

theorem C1_index_js_open_is_price:
  "updateOHLCData_index_js legacy_series 9 1717200090000 I1m =
     [\<lparr>lc_timestamp = 1717200000000, lc_open = 10, lc_high = 12, lc_low = 10, lc_close = 12,
       lc_volume = 2\<rparr>,
      \<lparr>lc_timestamp = 1717200060000, lc_open = 9, lc_high = 9, lc_low = 9, lc_close = 9,
       lc_volume = 1\<rparr>]"
  by (simp add: ohlc_updateOHLCData_index_js updateInterval_index_js_def legacy_series_def)

subsection \<open>Scenario A\<close>

lemma scenarioA_run:
  assumes "t0 mod 60000 = 0"
  shows "ohlc (updateAll (createPoolData c0) (scenarioA_samples t0)) I1m =
           [\<lparr>timestamp = t0, openp = 10, high = 12, low = 10, close = 12\<rparr>,
            \<lparr>timestamp = t0 + 60000, openp = 12, high = 9, low = 9, close = 9\<rparr>]"
proof -
  have a: "t0 div 60000 * 60000 = t0"
    using assms by auto
  obtain k where k: "t0 = 60000 * k"
    using assms by (auto simp: mod_eq_0_iff_dvd)
  have "(60000 * k + 90000) div 60000 = k + 1"
    by simp
  then have b: "(t0 + 90000) div 60000 * 60000 = t0 + 60000"
    by (simp add: k)
  show ?thesis
    by (simp add: updateAll_def scenarioA_samples_def ohlc_updateOHLCData updateInterval_def
        limitCandles_def foldSample_def createPoolData_def a b)
qed

text \<open>
  C3 (as the code has it). The samples \<open>(10, t0)\<close>, \<open>(12, t0 + 30 s)\<close>, \<open>(9, t0 + 90 s)\<close>, with
  \<open>t0\<close> on a minute boundary, give two one-minute candles: the one at \<open>t0\<close> is
  \<open>{open: 10, high: 12, low: 10, close: 12}\<close>, since the third sample lies in the next
  minute, and the one at \<open>t0 + 60 s\<close> opens at the previous close 12 with high, low and
  close 9.
\<close>

theorem C3_scenarioA:
  "t0 mod 60000 = 0 \<Longrightarrow>
   ohlc (updateAll (createPoolData c0) (scenarioA_samples t0)) I1m =
     [\<lparr>timestamp = t0, openp = 10, high = 12, low = 10, close = 12\<rparr>,
      \<lparr>timestamp = t0 + 60000, openp = 12, high = 9, low = 9, close = 9\<rparr>]"
  by (rule scenarioA_run)

theorem C3_scenarioA_witness:
  "scenarioA_t0 mod 60000 = 0 \<and>
   ohlc (updateAll (createPoolData 0) (scenarioA_samples scenarioA_t0)) I1m =
     [\<lparr>timestamp = 1717200000000, openp = 10, high = 12, low = 10, close = 12\<rparr>,
      \<lparr>timestamp = 1717200060000, openp = 12, high = 9, low = 9, close = 9\<rparr>]"
proof -
  have h: "scenarioA_t0 mod 60000 = 0"
    by (simp add: scenarioA_t0_def)
  show ?thesis
    using h C3_scenarioA [OF h, of 0] by (simp add: scenarioA_t0_def)
qed

text \<open>
  The scenario as the specification words it fails: the candle at \<open>t0\<close> is not
  \<open>{open: 10, high: 12, low: 9, close: 9}\<close>, and the next candle does not open at 9.
\<close>

theorem C3_scenarioA_counterexample:
  "ohlc (updateAll (createPoolData 0) (scenarioA_samples scenarioA_t0)) I1m ! 0 \<noteq>
     \<lparr>timestamp = scenarioA_t0, openp = 10, high = 12, low = 9, close = 9\<rparr>
   \<and> openp (ohlc (updateAll (createPoolData 0) (scenarioA_samples scenarioA_t0)) I1m ! 1) \<noteq> 9"
  by (simp add: updateAll_def scenarioA_samples_def scenarioA_t0_def ohlc_updateOHLCData
      updateInterval_def limitCandles_def foldSample_def createPoolData_def)

subsection \<open>Price bounds of a candle\<close>

lemma foldSample_bounds:
  assumes "\<forall>c \<in> set cs. low c \<le> close c \<and> close c \<le> high c"
  shows "\<forall>c \<in> set (foldSample ms cs price ts). low c \<le> close c \<and> close c \<le> high c"
proof (cases "cs = [] \<or> ts \<ge> timestamp (last cs) + ms")
  case True
  then show ?thesis
    using assms by (auto simp: foldSample_def)
next
  case False
  then have "set (butlast cs) \<subseteq> set cs"
    by (auto dest: in_set_butlastD)
  with False assms show ?thesis
    by (auto simp: foldSample_def)
qed

lemma limitCandles_subset: "set (limitCandles n cs) \<subseteq> set cs"
  by (auto simp: limitCandles_def dest: in_set_dropD)

lemma updateOHLCData_bounds:
  assumes "\<forall>iv. \<forall>c \<in> set (ohlc p iv). low c \<le> close c \<and> close c \<le> high c"
  shows "\<forall>iv. \<forall>c \<in> set (ohlc (updateOHLCData p price ts) iv). low c \<le> close c \<and> close c \<le> high c"
proof (intro allI)
  fix iv
  have "\<forall>c \<in> set (ohlc p iv). low c \<le> close c \<and> close c \<le> high c"
    using assms by blast
  from foldSample_bounds [OF this]
  show "\<forall>c \<in> set (ohlc (updateOHLCData p price ts) iv). low c \<le> close c \<and> close c \<le> high c"
    using limitCandles_subset by (fastforce simp: ohlc_updateOHLCData updateInterval_def)
qed

lemma updateAll_bounds:
  assumes "\<forall>iv. \<forall>c \<in> set (ohlc p iv). low c \<le> close c \<and> close c \<le> high c"
  shows "\<forall>iv. \<forall>c \<in> set (ohlc (updateAll p samples) iv). low c \<le> close c \<and> close c \<le> high c"
  using assms
proof (induction samples arbitrary: p)
  case Nil
  then show ?case by (simp add: updateAll_def)
next
  case (Cons s samples)
  obtain price ts where s: "s = (price, ts)"
    by (cases s)
  have "updateAll p (s # samples) = updateAll (updateOHLCData p price ts) samples"
    by (simp add: updateAll_def s)
  with Cons.IH [OF updateOHLCData_bounds [OF Cons.prems]] show ?case
    by simp
qed

text \<open>
  C4 (as the code has it). After any sequence of \<open>updateOHLCData\<close> calls on a fresh series,
  every candle of every interval has \<open>low \<le> close \<le> high\<close> and \<open>low \<le> high\<close>. Nothing is
  said of \<open>open\<close>: a candle pushed after another opens at the previous close.
\<close>

theorem C4_candle_bounds:
  "c \<in> set (ohlc (updateAll (createPoolData c0) samples) iv) \<Longrightarrow>
   low c \<le> close c \<and> close c \<le> high c \<and> low c \<le> high c"
proof -
  assume c: "c \<in> set (ohlc (updateAll (createPoolData c0) samples) iv)"
  have "\<forall>iv. \<forall>c \<in> set (ohlc (createPoolData c0) iv). low c \<le> close c \<and> close c \<le> high c"
    by (simp add: createPoolData_def)
  from updateAll_bounds [OF this] c
  have "low c \<le> close c \<and> close c \<le> high c"
    by blast
  then show ?thesis
    by simp
qed

theorem C4_candle_bounds_witness:
  "low \<lparr>timestamp = 1717200060000, openp = 12, high = 9, low = 9, close = 9\<rparr>
     \<le> close \<lparr>timestamp = 1717200060000, openp = 12, high = 9, low = 9, close = (9::real)\<rparr>
   \<and> \<lparr>timestamp = 1717200060000, openp = 12, high = 9, low = 9, close = 9\<rparr>
       \<in> set (ohlc (updateAll (createPoolData 0) (scenarioA_samples scenarioA_t0)) I1m)"
proof -
  have h: "\<lparr>timestamp = 1717200060000, openp = 12, high = 9, low = 9, close = 9\<rparr>
       \<in> set (ohlc (updateAll (createPoolData 0) (scenarioA_samples scenarioA_t0)) I1m)"
    by (simp add: updateAll_def scenarioA_samples_def scenarioA_t0_def ohlc_updateOHLCData
      updateInterval_def limitCandles_def foldSample_def createPoolData_def)
  show ?thesis
    using h C4_candle_bounds [OF h] by simp
qed

text \<open>
  The bound on \<open>open\<close> fails in scenario A: the second one-minute candle opens at 12, above
  its high of 9.
\<close>

theorem C4_open_above_high_counterexample:
  "\<not> (openp (ohlc (updateAll (createPoolData 0) (scenarioA_samples scenarioA_t0)) I1m ! 1)
        \<le> high (ohlc (updateAll (createPoolData 0) (scenarioA_samples scenarioA_t0)) I1m ! 1))"
  by (simp add: updateAll_def scenarioA_samples_def scenarioA_t0_def ohlc_updateOHLCData
      updateInterval_def limitCandles_def foldSample_def createPoolData_def)

section \<open>Properties of the continuity repair\<close>

lemma fixLoop_spec:
  "0 < i \<Longrightarrow> fixLoop i cs n = (cs', n') \<Longrightarrow>
     length cs' = length cs
     \<and> (\<forall>j < length cs. cs' ! j =
           (if i \<le> j then (cs ! j)\<lparr>openp := close (cs ! (j - 1))\<rparr> else cs ! j))
     \<and> n' = n + length (filter (\<lambda>j. close (cs ! (j - 1)) \<noteq> openp (cs ! j)) [i..<length cs])"
proof (induction i cs n arbitrary: cs' n' rule: fixLoop.induct)
  case (1 i candles fixCount)
  show ?case
  proof (cases "i < length candles")
    case False
    with "1.prems" show ?thesis
      by (simp add: fixLoop.simps [of i candles fixCount])
  next
    case True
    note lt = True
    let ?P = "\<lambda>j. close (candles ! (j - 1)) \<noteq> openp (candles ! j)"
    let ?c2 = "candles[i := (candles ! i)\<lparr>openp := close (candles ! (i - 1))\<rparr>]"
    have upt: "[i..<length candles] = i # [i + 1..<length candles]"
      using lt by (simp add: upt_conv_Cons)
    have c2_close: "close (?c2 ! j) = close (candles ! j)" for j
      by (cases "j = i") (use lt in \<open>simp_all\<close>)
    have c2_same: "?c2 = candles" if "\<not> ?P i"
      using that lt by (simp add: list_update_same_conv)
    have run: "fixLoop (i + 1) ?c2 (fixCount + (if ?P i then 1 else 0)) = (cs', n')"
      using "1.prems"(2) lt c2_same
      by (simp add: fixLoop.simps [of i candles fixCount] split: if_splits)
    have ih: "length cs' = length ?c2
       \<and> (\<forall>j < length ?c2. cs' ! j =
           (if i + 1 \<le> j then (?c2 ! j)\<lparr>openp := close (?c2 ! (j - 1))\<rparr> else ?c2 ! j))
       \<and> n' = (fixCount + (if ?P i then 1 else 0))
           + length (filter (\<lambda>j. close (?c2 ! (j - 1)) \<noteq> openp (?c2 ! j)) [i + 1..<length ?c2])"
    proof (cases "?P i")
      case True
      with run have "fixLoop (i + 1) ?c2 (fixCount + 1) = (cs', n')"
        by simp
      from "1.IH"(1) [OF lt True _ this] True show ?thesis
        by simp
    next
      case False
      with run c2_same have r: "fixLoop (i + 1) candles fixCount = (cs', n')"
        by simp
      from "1.IH"(2) [OF lt _ _ r] False c2_same show ?thesis
        by simp
    qed
    have len: "length cs' = length candles"
      using ih by simp
    have nth: "cs' ! j = (if i \<le> j then (candles ! j)\<lparr>openp := close (candles ! (j - 1))\<rparr>
                          else candles ! j)" if "j < length candles" for j
    proof -
      from ih that have e: "cs' ! j =
           (if i + 1 \<le> j then (?c2 ! j)\<lparr>openp := close (?c2 ! (j - 1))\<rparr> else ?c2 ! j)"
        by simp
      show ?thesis
      proof (cases "i + 1 \<le> j")
        case True
        then have "?c2 ! j = candles ! j"
          by simp
        with e True c2_close [of "j - 1"] show ?thesis
          by simp
      next
        case False
        with e that show ?thesis
          by (cases "j = i") simp_all
      qed
    qed
    have filt: "filter (\<lambda>j. close (?c2 ! (j - 1)) \<noteq> openp (?c2 ! j)) [i + 1..<length ?c2]
                = filter ?P [i + 1..<length candles]"
    proof (rule filter_cong)
      show "[i + 1..<length ?c2] = [i + 1..<length candles]"
        by simp
    next
      fix j
      assume "j \<in> set [i + 1..<length candles]"
      then have "?c2 ! j = candles ! j"
        by simp
      with c2_close [of "j - 1"]
      show "(close (?c2 ! (j - 1)) \<noteq> openp (?c2 ! j)) = ?P j"
        by simp
    qed
    have cnt: "n' = fixCount + length (filter ?P [i..<length candles])"
      using ih filt by (simp add: upt)
    from len nth cnt show ?thesis
      by blast
  qed
qed

lemma fixLoop_fst:
  assumes "0 < i"
  shows "fst (fixLoop i cs n) =
           map (\<lambda>j. if i \<le> j then (cs ! j)\<lparr>openp := close (cs ! (j - 1))\<rparr> else cs ! j)
             [0..<length cs]"
proof -
  obtain cs' n' where r: "fixLoop i cs n = (cs', n')"
    by (cases "fixLoop i cs n")
  from fixLoop_spec [OF assms r] show ?thesis
    by (auto simp: r intro!: nth_equalityI)
qed

lemma fixLoop_snd:
  assumes "0 < i"
  shows "snd (fixLoop i cs n) =
           n + length (filter (\<lambda>j. close (cs ! (j - 1)) \<noteq> openp (cs ! j)) [i..<length cs])"
proof -
  obtain cs' n' where r: "fixLoop i cs n = (cs', n')"
    by (cases "fixLoop i cs n")
  from fixLoop_spec [OF assms r] show ?thesis
    by (simp add: r)
qed

lemma fixInterval_eq:
  "fixInterval iv (p, n) =
     (p\<lparr>ohlc := (ohlc p)(iv := fst (fixLoop 1 (ohlc p iv) 0))\<rparr>,
      n + length (continuity_violations (ohlc p iv)))"
proof -
  obtain cs' n' where r: "fixLoop 1 (ohlc p iv) n = (cs', n')"
    by (cases "fixLoop 1 (ohlc p iv) n")
  have "cs' = fst (fixLoop 1 (ohlc p iv) 0)"
    using fixLoop_fst [of 1 "ohlc p iv" n] fixLoop_fst [of 1 "ohlc p iv" 0] r by simp
  moreover have "n' = n + length (continuity_violations (ohlc p iv))"
    using fixLoop_snd [of 1 "ohlc p iv" n] r by (simp add: continuity_violations_def)
  ultimately show ?thesis
    using r by (simp add: fixInterval_def)
qed

lemma fold_fixInterval:
  "distinct ks \<Longrightarrow>
   fold fixInterval ks (p, n) =
     (p\<lparr>ohlc := (\<lambda>iv. if iv \<in> set ks then fst (fixLoop 1 (ohlc p iv) 0) else ohlc p iv)\<rparr>,
      n + (\<Sum>iv\<leftarrow>ks. length (continuity_violations (ohlc p iv))))"
proof (induction ks arbitrary: p n)
  case Nil
  then show ?case by simp
next
  case (Cons k ks)
  let ?p1 = "p\<lparr>ohlc := (ohlc p)(k := fst (fixLoop 1 (ohlc p k) 0))\<rparr>"
  have k: "k \<notin> set ks" and d: "distinct ks"
    using Cons.prems by simp_all
  have sums: "(\<Sum>iv\<leftarrow>ks. length (continuity_violations (ohlc ?p1 iv)))
              = (\<Sum>iv\<leftarrow>ks. length (continuity_violations (ohlc p iv)))"
    by (rule arg_cong [where f = sum_list], rule map_cong) (use k in auto)
  have maps: "(\<lambda>iv. if iv \<in> set ks then fst (fixLoop 1 (ohlc ?p1 iv) 0) else ohlc ?p1 iv)
              = (\<lambda>iv. if iv \<in> set (k # ks) then fst (fixLoop 1 (ohlc p iv) 0) else ohlc p iv)"
    using k by (auto simp: fun_eq_iff)
  have "fold fixInterval (k # ks) (p, n) =
          fold fixInterval ks (?p1, n + length (continuity_violations (ohlc p k)))"
    by (simp add: fixInterval_eq)
  also have "\<dots> = (?p1\<lparr>ohlc := (\<lambda>iv. if iv \<in> set ks then fst (fixLoop 1 (ohlc ?p1 iv) 0)
                                   else ohlc ?p1 iv)\<rparr>,
                    n + length (continuity_violations (ohlc p k))
                      + (\<Sum>iv\<leftarrow>ks. length (continuity_violations (ohlc ?p1 iv))))"
    by (rule Cons.IH [OF d])
  finally show ?case
    by (simp only: maps sums) simp
qed

lemma ohlc_keys_all: "distinct ohlc_keys \<and> set ohlc_keys = UNIV"
proof -
  have "iv \<in> set ohlc_keys" for iv
    by (cases iv) (simp_all add: ohlc_keys_def)
  then show ?thesis
    by (auto simp: ohlc_keys_def)
qed

lemma validateAndFixOHLCContinuity_eq:
  "validateAndFixOHLCContinuity p =
     (p\<lparr>ohlc := (\<lambda>iv. fst (fixLoop 1 (ohlc p iv) 0))\<rparr>,
      (\<Sum>iv\<leftarrow>ohlc_keys. length (continuity_violations (ohlc p iv))))"
  using ohlc_keys_all
  by (simp add: validateAndFixOHLCContinuity_def fold_fixInterval)

text \<open>
  C2. After \<open>validateAndFixOHLCContinuity\<close>, in every interval each candle after the first
  opens at the close of the candle before it; the candles are the loaded ones except that
  the open of every violating candle has been set to the previous close; and the returned
  count is the number of violating candles, summed over the intervals.
\<close>

theorem C2_validateAndFix:
  "validateAndFixOHLCContinuity p = (p', n) \<Longrightarrow>
   (\<forall>iv i. 0 < i \<and> i < length (ohlc p' iv) \<longrightarrow>
        openp (ohlc p' iv ! i) = close (ohlc p' iv ! (i - 1)))
   \<and> (\<forall>iv. length (ohlc p' iv) = length (ohlc p iv))
   \<and> (\<forall>iv i. i < length (ohlc p iv) \<longrightarrow>
        ohlc p' iv ! i =
          (if i \<in> set (continuity_violations (ohlc p iv))
           then (ohlc p iv ! i)\<lparr>openp := close (ohlc p iv ! (i - 1))\<rparr>
           else ohlc p iv ! i))
   \<and> p' = p\<lparr>ohlc := ohlc p'\<rparr>
   \<and> n = (\<Sum>iv\<leftarrow>ohlc_keys. length (continuity_violations (ohlc p iv)))"
proof -
  assume run: "validateAndFixOHLCContinuity p = (p', n)"
  have p': "p' = p\<lparr>ohlc := (\<lambda>iv. fst (fixLoop 1 (ohlc p iv) 0))\<rparr>"
    and n: "n = (\<Sum>iv\<leftarrow>ohlc_keys. length (continuity_violations (ohlc p iv)))"
    using run by (simp_all add: validateAndFixOHLCContinuity_eq)
  have o: "ohlc p' iv =
             map (\<lambda>j. if 1 \<le> j then (ohlc p iv ! j)\<lparr>openp := close (ohlc p iv ! (j - 1))\<rparr>
                       else ohlc p iv ! j) [0..<length (ohlc p iv)]" for iv
    by (simp add: p' fixLoop_fst)
  have len: "length (ohlc p' iv) = length (ohlc p iv)" for iv
    by (simp add: o)
  have nth: "ohlc p' iv ! i =
               (if 1 \<le> i then (ohlc p iv ! i)\<lparr>openp := close (ohlc p iv ! (i - 1))\<rparr>
                else ohlc p iv ! i)" if "i < length (ohlc p iv)" for iv i
    using that by (simp add: o)
  have cont: "openp (ohlc p' iv ! i) = close (ohlc p' iv ! (i - 1))"
    if "0 < i" "i < length (ohlc p' iv)" for iv i
  proof -
    have i: "i < length (ohlc p iv)" and j: "i - 1 < length (ohlc p iv)"
      using that len [of iv] by simp_all
    show ?thesis
      using that nth [OF i] nth [OF j] by auto
  qed
  have rep: "ohlc p' iv ! i =
          (if i \<in> set (continuity_violations (ohlc p iv))
           then (ohlc p iv ! i)\<lparr>openp := close (ohlc p iv ! (i - 1))\<rparr>
           else ohlc p iv ! i)" if "i < length (ohlc p iv)" for iv i
  proof (cases "i \<in> set (continuity_violations (ohlc p iv))")
    case True
    then have "1 \<le> i"
      by (simp add: continuity_violations_def)
    with True nth [OF that] show ?thesis
      by simp
  next
    case False
    show ?thesis
    proof (cases "1 \<le> i")
      case True
      with False that have "close (ohlc p iv ! (i - 1)) = openp (ohlc p iv ! i)"
        by (simp add: continuity_violations_def)
      with True False nth [OF that] show ?thesis
        by simp
    next
      case False
      with nth [OF that] show ?thesis
        by (simp add: continuity_violations_def)
    qed
  qed
  have same: "p' = p\<lparr>ohlc := ohlc p'\<rparr>"
    by (simp add: p')
  from cont len rep same n show ?thesis
    by blast
qed

lemma scenarioC_run:
  "validateAndFixOHLCContinuity scenarioC_series = (scenarioC_repaired, 1)"
proof -
  have "fst (fixLoop 1 (ohlc scenarioC_series iv) 0) = ohlc scenarioC_repaired iv" for iv
    by (cases iv) (simp_all add: fixLoop_fst scenarioC_series_def scenarioC_repaired_def
        createPoolData_def upt_conv_Cons)
  then have "(\<lambda>iv. fst (fixLoop 1 (ohlc scenarioC_series iv) 0)) = ohlc scenarioC_repaired"
    by (simp add: fun_eq_iff)
  then have "scenarioC_series\<lparr>ohlc := (\<lambda>iv. fst (fixLoop 1 (ohlc scenarioC_series iv) 0))\<rparr>
               = scenarioC_series\<lparr>ohlc := ohlc scenarioC_repaired\<rparr>"
    by (simp only:)
  also have "\<dots> = scenarioC_repaired"
    by (simp add: scenarioC_series_def scenarioC_repaired_def)
  finally have "scenarioC_series\<lparr>ohlc := (\<lambda>iv. fst (fixLoop 1 (ohlc scenarioC_series iv) 0))\<rparr>
               = scenarioC_repaired" .
  moreover have "(\<Sum>iv\<leftarrow>ohlc_keys. length (continuity_violations (ohlc scenarioC_series iv))) = 1"
    by (simp add: ohlc_keys_def continuity_violations_def scenarioC_series_def
        createPoolData_def upt_conv_Cons)
  ultimately show ?thesis
    by (simp add: validateAndFixOHLCContinuity_eq)
qed

theorem C2_validateAndFix_witness:
  "validateAndFixOHLCContinuity scenarioC_series = (scenarioC_repaired, 1)
   \<and> close (ohlc scenarioC_series I1h ! 3) = 100
   \<and> openp (ohlc scenarioC_series I1h ! 4) = 105
   \<and> openp (ohlc scenarioC_repaired I1h ! 4) = close (ohlc scenarioC_repaired I1h ! (4 - 1))
   \<and> openp (ohlc scenarioC_repaired I1h ! 4) = 100
   \<and> length (ohlc scenarioC_repaired I1h) = length (ohlc scenarioC_series I1h)"
proof -
  have h: "validateAndFixOHLCContinuity scenarioC_series = (scenarioC_repaired, 1)"
    by (rule scenarioC_run)
  have "0 < (4::nat) \<and> 4 < length (ohlc scenarioC_repaired I1h)"
    by (simp add: scenarioC_repaired_def)
  with C2_validateAndFix [OF h]
  have "openp (ohlc scenarioC_repaired I1h ! 4) = close (ohlc scenarioC_repaired I1h ! (4 - 1))"
    and "length (ohlc scenarioC_repaired I1h) = length (ohlc scenarioC_series I1h)"
    by blast+
  with h show ?thesis
    by (simp add: scenarioC_repaired_def scenarioC_series_def)
qed

section \<open>Properties of the interval derivation\<close>

lemma replaceFirst_distinct:
  "distinct (map timestamp res) \<Longrightarrow>
   replaceFirst (\<lambda>c. timestamp c = t) f res = map (\<lambda>r. if timestamp r = t then f r else r) res"
proof (induction res)
  case Nil
  then show ?case by simp
next
  case (Cons x xs)
  show ?case
  proof (cases "timestamp x = t")
    case True
    with Cons.prems have "\<forall>r \<in> set xs. timestamp r \<noteq> t"
      by (force simp: image_iff)
    then have "map (\<lambda>r. if timestamp r = t then f r else r) xs = xs"
      by (simp add: map_idI)
    with True show ?thesis
      by simp
  next
    case False
    with Cons show ?thesis
      by simp
  qed
qed

lemma timestamp_mergedCandle [simp]: "timestamp (mergedCandle b cs) = b"
  by (simp add: mergedCandle_def)

lemma mergedCandle_single:
  "mergedCandle b [x] =
     \<lparr>timestamp = b, openp = openp x, high = high x, low = low x, close = close x\<rparr>"
  by (simp add: mergedCandle_def)

lemma mergedCandle_snoc:
  assumes "cs \<noteq> []"
  shows "mergedCandle b (cs @ [x]) =
           (mergedCandle b cs)
             \<lparr>high := max (high (mergedCandle b cs)) (high x),
              low := min (low (mergedCandle b cs)) (low x),
              close := close x\<rparr>"
proof -
  have "Max (insert (high x) (high ` set cs)) = max (Max (high ` set cs)) (high x)"
    using assms by (simp add: max.commute)
  moreover have "Min (insert (low x) (low ` set cs)) = min (Min (low ` set cs)) (low x)"
    using assms by (simp add: min.commute)
  ultimately show ?thesis
    using assms by (simp add: mergedCandle_def)
qed

lemma bucketCandles_snoc:
  "bucketCandles w (xs @ [x]) b =
     (if targetBucket w x = b then bucketCandles w xs b @ [x] else bucketCandles w xs b)"
  by (simp add: bucketCandles_def)

lemma bucketCandles_empty_iff:
  "bucketCandles w xs b = [] \<longleftrightarrow> b \<notin> targetBucket w ` set xs"
  by (auto simp: bucketCandles_def filter_empty_conv)

text \<open>The invariant of the \<open>forEach\<close> loop, after the source candles \<open>xs\<close>.\<close>

lemma merge_invariant:
  "distinct (map timestamp (fold (\<lambda>candle result. mergeCandle w result candle) xs []))
   \<and> timestamp ` set (fold (\<lambda>candle result. mergeCandle w result candle) xs [])
       = targetBucket w ` set xs
   \<and> (\<forall>r \<in> set (fold (\<lambda>candle result. mergeCandle w result candle) xs []).
         r = mergedCandle (timestamp r) (bucketCandles w xs (timestamp r)))"
proof (induction xs rule: rev_induct)
  case Nil
  then show ?case by simp
next
  case (snoc x xs)
  let ?res = "fold (\<lambda>candle result. mergeCandle w result candle) xs []"
  let ?t = "targetBucket w x"
  let ?upd = "\<lambda>targetCandle. targetCandle
               \<lparr>high := max (high targetCandle) (high x),
                low := min (low targetCandle) (low x),
                close := close x\<rparr>"
  have d: "distinct (map timestamp ?res)"
    and s: "timestamp ` set ?res = targetBucket w ` set xs"
    and m: "\<And>r. r \<in> set ?res \<Longrightarrow> r = mergedCandle (timestamp r) (bucketCandles w xs (timestamp r))"
    using snoc.IH by blast+
  have step: "fold (\<lambda>candle result. mergeCandle w result candle) (xs @ [x]) [] = mergeCandle w ?res x"
    by simp
  show ?case
  proof (cases "?t \<in> targetBucket w ` set xs")
    case False
    then have "?t \<notin> timestamp ` set ?res"
      using s by simp
    then have none: "List.find (\<lambda>c. timestamp c = ?t) ?res = None"
      unfolding find_None_iff by (metis imageI)
    let ?new = "\<lparr>timestamp = ?t, openp = openp x, high = high x, low = low x, close = close x\<rparr>"
    have res': "mergeCandle w ?res x = ?res @ [?new]"
      using none by (simp add: mergeCandle_def targetBucket_def)
    have "bucketCandles w (xs @ [x]) ?t = [x]"
      using False by (simp add: bucketCandles_snoc bucketCandles_empty_iff)
    then have new: "?new = mergedCandle (timestamp ?new) (bucketCandles w (xs @ [x]) (timestamp ?new))"
      by (simp add: mergedCandle_single)
    have old: "r = mergedCandle (timestamp r) (bucketCandles w (xs @ [x]) (timestamp r))"
      if "r \<in> set ?res" for r
    proof -
      have "timestamp r \<in> targetBucket w ` set xs"
        using that s by blast
      with False have "timestamp r \<noteq> ?t"
        by metis
      then show ?thesis
        using m [OF that] by (simp add: bucketCandles_snoc)
    qed
    have "distinct (map timestamp (?res @ [?new]))"
      using d s False by auto
    moreover have "timestamp ` set (?res @ [?new]) = targetBucket w ` set (xs @ [x])"
      using s by auto
    moreover have "\<forall>r \<in> set (?res @ [?new]).
        r = mergedCandle (timestamp r) (bucketCandles w (xs @ [x]) (timestamp r))"
      using old new by (auto simp: timestamp_mergedCandle)
    ultimately show ?thesis
      by (simp only: step res')
  next
    case True
    then obtain r0 where r0: "r0 \<in> set ?res" "timestamp r0 = ?t"
      using s by (metis (no_types, lifting) imageE)
    then have "List.find (\<lambda>c. timestamp c = ?t) ?res \<noteq> None"
      by (auto simp: find_None_iff)
    then obtain y where some: "List.find (\<lambda>c. timestamp c = ?t) ?res = Some y"
      by blast
    have res': "mergeCandle w ?res x = map (\<lambda>r. if timestamp r = ?t then ?upd r else r) ?res"
      using some replaceFirst_distinct [OF d, of ?t ?upd]
      by (simp add: mergeCandle_def targetBucket_def)
    have ts: "map timestamp (map (\<lambda>r. if timestamp r = ?t then ?upd r else r) ?res)
                = map timestamp ?res"
      by (simp add: comp_def if_distrib [of timestamp] cong: if_cong)
    have ne: "bucketCandles w xs ?t \<noteq> []"
      using True by (simp add: bucketCandles_empty_iff)
    have each: "(if timestamp r = ?t then ?upd r else r) =
                  mergedCandle (timestamp (if timestamp r = ?t then ?upd r else r))
                    (bucketCandles w (xs @ [x])
                       (timestamp (if timestamp r = ?t then ?upd r else r)))"
      if "r \<in> set ?res" for r
    proof (cases "timestamp r = ?t")
      case True
      have "?upd r = mergedCandle ?t (bucketCandles w xs ?t @ [x])"
        using m [OF that] True mergedCandle_snoc [OF ne, of ?t x] by simp
      then show ?thesis
        using True by (simp add: bucketCandles_snoc)
    next
      case False
      then show ?thesis
        using m [OF that] by (simp add: bucketCandles_snoc)
    qed
    have "distinct (map timestamp (map (\<lambda>r. if timestamp r = ?t then ?upd r else r) ?res))"
      using d by (simp only: ts)
    moreover have "timestamp ` set (map (\<lambda>r. if timestamp r = ?t then ?upd r else r) ?res)
                     = targetBucket w ` set (xs @ [x])"
    proof -
      have "set (map timestamp (map (\<lambda>r. if timestamp r = ?t then ?upd r else r) ?res))
              = set (map timestamp ?res)"
        by (simp only: ts)
      then have "timestamp ` set (map (\<lambda>r. if timestamp r = ?t then ?upd r else r) ?res)
              = timestamp ` set ?res"
        by (simp only: set_map)
      also have "\<dots> = targetBucket w ` set xs"
        by (rule s)
      also have "\<dots> = targetBucket w ` set (xs @ [x])"
        using True by auto
      finally show ?thesis .
    qed
    moreover have "\<forall>r \<in> set (map (\<lambda>r. if timestamp r = ?t then ?upd r else r) ?res).
        r = mergedCandle (timestamp r) (bucketCandles w (xs @ [x]) (timestamp r))"
    proof
      fix r'
      assume "r' \<in> set (map (\<lambda>r. if timestamp r = ?t then ?upd r else r) ?res)"
      then obtain r where r: "r \<in> set ?res" "r' = (if timestamp r = ?t then ?upd r else r)"
        unfolding set_map by blast
      show "r' = mergedCandle (timestamp r') (bucketCandles w (xs @ [x]) (timestamp r'))"
        unfolding r(2) by (rule each [OF r(1)])
    qed
    ultimately show ?thesis
      by (simp only: step res')
  qed
qed

lemma insort_key_map:
  assumes "\<And>k. f (g k) = k"
  shows "insort_key f (g k) (map g ys) = map g (insort k ys)"
  by (induction ys) (simp_all add: assms)

lemma sort_key_map:
  assumes "\<And>k. f (g k) = k"
  shows "sort_key f (map g ks) = map g (sort ks)"
  by (induction ks) (simp_all add: insort_key_map [of f g, OF assms])

lemma generateLongerInterval_eq: "generateLongerInterval src w = deriveInterval src w"
proof (cases "src = []")
  case True
  then show ?thesis
    by (simp add: generateLongerInterval_def deriveInterval_def)
next
  case False
  let ?res = "fold (\<lambda>candle result. mergeCandle w result candle) src []"
  let ?g = "\<lambda>b. mergedCandle b (bucketCandles w src b)"
  have d: "distinct (map timestamp ?res)"
    and s: "timestamp ` set ?res = targetBucket w ` set src"
    and m: "\<And>r. r \<in> set ?res \<Longrightarrow> r = ?g (timestamp r)"
    using merge_invariant [of w src] by blast+
  have res: "?res = map ?g (map timestamp ?res)"
    using m by (simp add: map_idI [symmetric] comp_def)
  have g: "timestamp (?g k) = k" for k
    by (simp add: mergedCandle_def)
  have "sort_key timestamp ?res = sort_key timestamp (map ?g (map timestamp ?res))"
    using res by simp
  also have "\<dots> = map ?g (sort (map timestamp ?res))"
    by (rule sort_key_map) (rule g)
  also have "sort (map timestamp ?res) = sorted_list_of_set (set (map timestamp ?res))"
    using d by (metis distinct_remdups_id sorted_list_of_set_sort_remdups)
  also have "set (map timestamp ?res) = set (map (targetBucket w) src)"
    using s by simp
  finally show ?thesis
    using False by (simp add: generateLongerInterval_def deriveInterval_def)
qed

lemma sorted_last_greatest:
  assumes "sorted (map f xs)" "x \<in> set xs"
  shows "f x \<le> f (last xs)"
proof -
  from assms(2) have ne: "xs \<noteq> []"
    by auto
  from assms(2) obtain i where i: "i < length xs" "xs ! i = x"
    by (auto simp: in_set_conv_nth)
  have "map f xs ! i \<le> map f xs ! (length xs - 1)"
    using assms(1) i(1) by (intro sorted_nth_mono) simp_all
  then show ?thesis
    using i ne by (simp add: last_conv_nth)
qed

text \<open>
  C6 (as the code has it). For a positive target width, \<open>generateLongerInterval\<close> buckets
  each source candle at \<open>floor(ts / targetWidth) * targetWidth\<close> and returns, ascending by
  timestamp, one candle per bucket: opened by the bucket's first source candle, with the
  maximum of the highs, the minimum of the lows, and the close of the source candle that
  comes last in the source list. That candle is the chronologically last one of the bucket
  when the source list is in timestamp order.
\<close>

theorem C6_generateLongerInterval:
  "0 < w \<Longrightarrow>
   generateLongerInterval src w = deriveInterval src w
   \<and> sorted_wrt (<) (map timestamp (generateLongerInterval src w))
   \<and> (sorted (map timestamp src) \<longrightarrow>
        (\<forall>b. \<forall>c \<in> set (bucketCandles w src b).
           timestamp c \<le> timestamp (last (bucketCandles w src b))))"
proof -
  have eq: "generateLongerInterval src w = deriveInterval src w"
    by (rule generateLongerInterval_eq)
  have "map timestamp (deriveInterval src w)
          = sorted_list_of_set (set (map (targetBucket w) src))"
    by (simp add: deriveInterval_def comp_def)
  then have asc: "sorted_wrt (<) (map timestamp (generateLongerInterval src w))"
    by (simp only: eq) simp
  have chrono: "timestamp c \<le> timestamp (last (bucketCandles w src b))"
    if "sorted (map timestamp src)" "c \<in> set (bucketCandles w src b)" for b c
  proof -
    have "sorted (map timestamp (bucketCandles w src b))"
      using that(1) by (simp add: bucketCandles_def sorted_filter)
    then show ?thesis
      using that(2) by (rule sorted_last_greatest)
  qed
  from eq asc chrono show ?thesis
    by blast
qed

theorem C6_generateLongerInterval_witness:
  "(0::int) < 21600000 \<and> sorted (map timestamp hourly_source)
   \<and> deriveInterval hourly_source 21600000 =
       [\<lparr>timestamp = 0, openp = 10, high = 15, low = 8, close = 14\<rparr>,
        \<lparr>timestamp = 21600000, openp = 14, high = 16, low = 13, close = 13\<rparr>]
   \<and> sorted_wrt (<) (map timestamp (generateLongerInterval hourly_source 21600000))"
proof -
  have h: "(0::int) < 21600000"
    by simp
  have s: "sorted (map timestamp hourly_source)"
    by (simp add: hourly_source_def)
  have e: "generateLongerInterval hourly_source 21600000 =
       [\<lparr>timestamp = 0, openp = 10, high = 15, low = 8, close = 14\<rparr>,
        \<lparr>timestamp = 21600000, openp = 14, high = 16, low = 13, close = 13\<rparr>]"
    by (simp add: generateLongerInterval_def mergeCandle_def hourly_source_def)
  from C6_generateLongerInterval [OF h, of hourly_source]
  have "generateLongerInterval hourly_source 21600000 = deriveInterval hourly_source 21600000"
    and "sorted_wrt (<) (map timestamp (generateLongerInterval hourly_source 21600000))"
    by blast+
  with h s e show ?thesis
    by simp
qed

text \<open>
  With the two hourly candles of one bucket stored in reverse order, the derived candle
  closes at 11, the close of the candle at timestamp 0, and not at 14, the close of the
  chronologically last source candle (timestamp 3600000).
\<close>

theorem C6_unsorted_source_counterexample:
  "generateLongerInterval unsorted_source 21600000 =
     [\<lparr>timestamp = 0, openp = 11, high = 15, low = 8, close = 11\<rparr>]
   \<and> targetBucket 21600000 (unsorted_source ! 0) = 0
   \<and> targetBucket 21600000 (unsorted_source ! 1) = 0
   \<and> timestamp (unsorted_source ! 1) < timestamp (unsorted_source ! 0)
   \<and> close (unsorted_source ! 0) = 14"
  by (simp add: generateLongerInterval_def mergeCandle_def unsorted_source_def targetBucket_def)

section \<open>Properties of the volume window tracker\<close>

lemma foldl_add_sum_list:
  "foldl (\<lambda>sum v. sum + f v) a xs = a + sum_list (map f xs)"
  for a :: real
  by (induction xs arbitrary: a) simp_all

lemma windowSum_sum_list:
  "windowSum cutoff volHist =
     (\<Sum>e\<leftarrow>filter (\<lambda>e. cutoff \<le> ve_timestamp e) volHist. ve_volume e)"
  by (simp add: windowSum_def foldl_add_sum_list)

lemma dropWhile_sorted_filter:
  "sorted (map f xs) \<Longrightarrow> dropWhile (\<lambda>e. f e < c) xs = filter (\<lambda>e. c \<le> f e) xs"
  for f :: "'a \<Rightarrow> int"
proof (induction xs)
  case Nil
  then show ?case by simp
next
  case (Cons x xs)
  show ?case
  proof (cases "f x < c")
    case True
    with Cons show ?thesis
      by simp
  next
    case False
    with Cons.prems have "\<forall>e \<in> set xs. c \<le> f e"
      by auto
    then have "filter (\<lambda>e. c \<le> f e) xs = xs"
      by simp
    with False show ?thesis
      by simp
  qed
qed

lemma evict_sorted_log:
  assumes "0 \<le> m" "sorted (map ve_timestamp volHist)"
  shows "dropWhile (\<lambda>e. ve_timestamp e < now - m)
           (volHist @ [\<lparr>ve_volume = v, ve_timestamp = now\<rparr>])
         = filter (\<lambda>e. now - m \<le> ve_timestamp e)
             (volHist @ [\<lparr>ve_volume = v, ve_timestamp = now\<rparr>])"
proof (cases "\<forall>e \<in> set volHist. ve_timestamp e < now - m")
  case True
  then have "filter (\<lambda>e. now - m \<le> ve_timestamp e) volHist = []"
    by (auto simp: filter_empty_conv)
  with True assms(1) show ?thesis
    by (simp add: dropWhile_append)
next
  case False
  with assms(1) dropWhile_sorted_filter [OF assms(2), of "now - m"] show ?thesis
    by (auto simp: dropWhile_append)
qed

text \<open>
  C7 (as the code has it). \<open>updateVolume\<close> adds the amount to \<open>total\<close>; sets each of the
  24h, 7d and 30d sums to the sum of the amounts of all log entries, the new one included,
  stamped at or after \<open>now\<close> minus the window, which is the sum over \<open>[now - window, now]\<close>
  when no entry is stamped later than \<open>now\<close>; and then removes entries older than 30 days
  from the head of the log, up to the first entry that is not older. When the log is in
  timestamp order that removes every entry older than 30 days and nothing else.
\<close>

theorem C7_updateVolume:
  "updateVolume pd volHist v now = (pd', volHist') \<Longrightarrow>
   vol_total (volume pd') = vol_total (volume pd) + v
   \<and> vol_24h (volume pd') =
       (\<Sum>e\<leftarrow>filter (\<lambda>e. now - 86400000 \<le> ve_timestamp e)
              (volHist @ [\<lparr>ve_volume = v, ve_timestamp = now\<rparr>]). ve_volume e)
   \<and> vol_7d (volume pd') =
       (\<Sum>e\<leftarrow>filter (\<lambda>e. now - 604800000 \<le> ve_timestamp e)
              (volHist @ [\<lparr>ve_volume = v, ve_timestamp = now\<rparr>]). ve_volume e)
   \<and> vol_30d (volume pd') =
       (\<Sum>e\<leftarrow>filter (\<lambda>e. now - 2592000000 \<le> ve_timestamp e)
              (volHist @ [\<lparr>ve_volume = v, ve_timestamp = now\<rparr>]). ve_volume e)
   \<and> ((\<forall>e \<in> set volHist. ve_timestamp e \<le> now) \<longrightarrow>
        vol_24h (volume pd') =
          (\<Sum>e\<leftarrow>filter (\<lambda>e. now - 86400000 \<le> ve_timestamp e \<and> ve_timestamp e \<le> now)
                 (volHist @ [\<lparr>ve_volume = v, ve_timestamp = now\<rparr>]). ve_volume e))
   \<and> volHist' =
       dropWhile (\<lambda>e. ve_timestamp e < now - 2592000000)
         (volHist @ [\<lparr>ve_volume = v, ve_timestamp = now\<rparr>])
   \<and> (sorted (map ve_timestamp volHist) \<longrightarrow>
        volHist' =
          filter (\<lambda>e. now - 2592000000 \<le> ve_timestamp e)
            (volHist @ [\<lparr>ve_volume = v, ve_timestamp = now\<rparr>]))"
proof -
  assume run: "updateVolume pd volHist v now = (pd', volHist')"
  let ?pushed = "volHist @ [\<lparr>ve_volume = v, ve_timestamp = now\<rparr>]"
  have pd': "pd' = pd\<lparr>volume := (volume pd)
            \<lparr>vol_total := vol_total (volume pd) + v,
             vol_24h := windowSum (now - 86400000) ?pushed,
             vol_7d := windowSum (now - 604800000) ?pushed,
             vol_30d := windowSum (now - 2592000000) ?pushed\<rparr>\<rparr>"
    and log': "volHist' = dropWhile (\<lambda>e. ve_timestamp e < now - 2592000000) ?pushed"
    using run by (simp_all add: updateVolume_def Let_def)
  have total: "vol_total (volume pd') = vol_total (volume pd) + v"
    by (simp add: pd')
  have d: "vol_24h (volume pd') =
       (\<Sum>e\<leftarrow>filter (\<lambda>e. now - 86400000 \<le> ve_timestamp e) ?pushed. ve_volume e)"
    by (simp add: pd' windowSum_sum_list)
  have w: "vol_7d (volume pd') =
       (\<Sum>e\<leftarrow>filter (\<lambda>e. now - 604800000 \<le> ve_timestamp e) ?pushed. ve_volume e)"
    by (simp add: pd' windowSum_sum_list)
  have m: "vol_30d (volume pd') =
       (\<Sum>e\<leftarrow>filter (\<lambda>e. now - 2592000000 \<le> ve_timestamp e) ?pushed. ve_volume e)"
    by (simp add: pd' windowSum_sum_list)
  have closed: "vol_24h (volume pd') =
          (\<Sum>e\<leftarrow>filter (\<lambda>e. now - 86400000 \<le> ve_timestamp e \<and> ve_timestamp e \<le> now)
                 ?pushed. ve_volume e)"
    if "\<forall>e \<in> set volHist. ve_timestamp e \<le> now"
  proof -
    have "filter (\<lambda>e. now - 86400000 \<le> ve_timestamp e \<and> ve_timestamp e \<le> now) ?pushed
            = filter (\<lambda>e. now - 86400000 \<le> ve_timestamp e) ?pushed"
      by (rule filter_cong) (use that in auto)
    then show ?thesis
      by (simp only: d)
  qed
  have evict: "volHist' = filter (\<lambda>e. now - 2592000000 \<le> ve_timestamp e) ?pushed"
    if "sorted (map ve_timestamp volHist)"
    using evict_sorted_log [OF _ that, of 2592000000 now v] by (simp add: log')
  from total d w m closed log' evict show ?thesis
    by blast
qed

theorem C7_updateVolume_witness:
  "sorted (map ve_timestamp ordered_log)
   \<and> vol_total (volume (fst (updateVolume (createPoolData 0) ordered_log 2 4000000000))) = 2
   \<and> vol_24h (volume (fst (updateVolume (createPoolData 0) ordered_log 2 4000000000))) = 5
   \<and> vol_7d (volume (fst (updateVolume (createPoolData 0) ordered_log 2 4000000000))) = 10
   \<and> vol_30d (volume (fst (updateVolume (createPoolData 0) ordered_log 2 4000000000))) = 10
   \<and> snd (updateVolume (createPoolData 0) ordered_log 2 4000000000) =
       [\<lparr>ve_volume = 5, ve_timestamp = 3827200000\<rparr>,
        \<lparr>ve_volume = 3, ve_timestamp = 3996400000\<rparr>,
        \<lparr>ve_volume = 2, ve_timestamp = 4000000000\<rparr>]"
proof -
  have h: "updateVolume (createPoolData 0) ordered_log 2 4000000000 =
     (fst (updateVolume (createPoolData 0) ordered_log 2 4000000000),
      snd (updateVolume (createPoolData 0) ordered_log 2 4000000000))"
    by simp
  have s: "sorted (map ve_timestamp ordered_log)"
    by (simp add: ordered_log_def)
  have t: "vol_total (volume (createPoolData 0)) = 0"
    by (simp add: createPoolData_def)
  from C7_updateVolume [OF h] s t show ?thesis
    by (simp add: ordered_log_def)
qed

text \<open>
  With the clock at 4000000000 and the log \<open>stale_log\<close>, the entry stamped 1000000000,
  more than 30 days old, is still in the log after \<open>updateVolume\<close>, behind a head that is
  not old; and the 24h sum is 7, counting the head stamped after \<open>now\<close>, although the only
  entry stamped within \<open>[now - 24h, now]\<close> is the new one, of amount 2.
\<close>

theorem C7_stale_log_counterexample:
  "snd (updateVolume (createPoolData 0) stale_log 2 4000000000) =
     [\<lparr>ve_volume = 5, ve_timestamp = 4000001000\<rparr>,
      \<lparr>ve_volume = 7, ve_timestamp = 1000000000\<rparr>,
      \<lparr>ve_volume = 2, ve_timestamp = 4000000000\<rparr>]
   \<and> (1000000000::int) < 4000000000 - 30 * 24 * 60 * 60 * 1000
   \<and> vol_24h (volume (fst (updateVolume (createPoolData 0) stale_log 2 4000000000))) = 7"
  by (simp add: updateVolume_def windowSum_def stale_log_def createPoolData_def)

subsection \<open>The shared volume log\<close>

lemma recordSwapVolume_eq:
  "recordSwapVolume st a v now =
     st\<lparr>poolsData := (poolsData st)(toLowerCase a \<mapsto>
           fst (updateVolume
                  (case poolsData st (toLowerCase a) of None \<Rightarrow> createPoolData now | Some p \<Rightarrow> p)
                  (volumeHistory st) v now)),
        volumeHistory :=
           snd (updateVolume
                  (case poolsData st (toLowerCase a) of None \<Rightarrow> createPoolData now | Some p \<Rightarrow> p)
                  (volumeHistory st) v now)\<rparr>"
  by (simp add: recordSwapVolume_def getPoolData_def Let_def split: option.splits prod.splits)

lemma volumeHistory_recordSwapVolume:
  "volumeHistory (recordSwapVolume st a v now) =
     dropWhile (\<lambda>e. ve_timestamp e < now - 2592000000)
       (volumeHistory st @ [\<lparr>ve_volume = v, ve_timestamp = now\<rparr>])"
  by (simp add: recordSwapVolume_eq updateVolume_def Let_def)

lemma poolsData_recordSwapVolume_other:
  "k \<noteq> toLowerCase a \<Longrightarrow> poolsData (recordSwapVolume st a v now) k = poolsData st k"
  by (simp add: recordSwapVolume_eq)

lemma poolsData_recordSwapVolume_same:
  "\<exists>p. poolsData (recordSwapVolume st a v now) (toLowerCase a) = Some p
     \<and> vol_total (volume p) =
         (case poolsData st (toLowerCase a) of None \<Rightarrow> 0 | Some q \<Rightarrow> vol_total (volume q)) + v
     \<and> vol_24h (volume p) =
         windowSum (now - 86400000) (volumeHistory st @ [\<lparr>ve_volume = v, ve_timestamp = now\<rparr>])
     \<and> vol_7d (volume p) =
         windowSum (now - 604800000) (volumeHistory st @ [\<lparr>ve_volume = v, ve_timestamp = now\<rparr>])
     \<and> vol_30d (volume p) =
         windowSum (now - 2592000000) (volumeHistory st @ [\<lparr>ve_volume = v, ve_timestamp = now\<rparr>])"
  by (simp add: recordSwapVolume_eq updateVolume_def Let_def createPoolData_def
      split: option.splits)

lemma filter_dropWhile_disjoint:
  "(\<And>e. P e \<Longrightarrow> \<not> Q e) \<Longrightarrow> filter Q (dropWhile P xs) = filter Q xs"
  by (induction xs) auto

lemma windowSum_after_eviction:
  assumes "0 \<le> m" "m \<le> 2592000000"
  shows "windowSum (now - m)
           (dropWhile (\<lambda>e. ve_timestamp e < now - 2592000000) xs
              @ [\<lparr>ve_volume = v, ve_timestamp = now\<rparr>])
         = windowSum (now - m) xs + v"
proof -
  have "filter (\<lambda>e. now - m \<le> ve_timestamp e)
          (dropWhile (\<lambda>e. ve_timestamp e < now - 2592000000) xs)
        = filter (\<lambda>e. now - m \<le> ve_timestamp e) xs"
    by (rule filter_dropWhile_disjoint) (use assms in simp)
  then show ?thesis
    using assms by (simp add: windowSum_sum_list)
qed

text \<open>
  C10 (as the code has it). The volume log is one array shared by all pools: a swap of any
  pool appends to it, and the pool's 24h, 7d and 30d sums are recomputed over the whole
  log, while \<open>total\<close> is accumulated per pool. When a swap of pool \<open>a\<close> and then a swap of
  a different pool \<open>b\<close> are recorded at the same instant, the sums of \<open>a\<close> are those over
  the log as it stood after \<open>a\<close>'s swap, and each sum of \<open>b\<close> is the corresponding sum of
  \<open>a\<close> plus \<open>b\<close>'s amount: \<open>a\<close>'s swap counts toward \<open>b\<close>, and \<open>b\<close>'s swap reaches
  \<open>a\<close>'s sums only when \<open>a\<close> is next updated.
\<close>

theorem C10_shared_volume_log:
  "toLowerCase a \<noteq> toLowerCase b \<Longrightarrow>
   \<exists>pa pb.
     poolsData (recordSwapVolume (recordSwapVolume s a va now) b vb now) (toLowerCase a) = Some pa
   \<and> poolsData (recordSwapVolume (recordSwapVolume s a va now) b vb now) (toLowerCase b) = Some pb
   \<and> volumeHistory (recordSwapVolume s a va now) =
       dropWhile (\<lambda>e. ve_timestamp e < now - 2592000000)
         (volumeHistory s @ [\<lparr>ve_volume = va, ve_timestamp = now\<rparr>])
   \<and> volumeHistory (recordSwapVolume (recordSwapVolume s a va now) b vb now) =
       dropWhile (\<lambda>e. ve_timestamp e < now - 2592000000)
         (volumeHistory (recordSwapVolume s a va now) @ [\<lparr>ve_volume = vb, ve_timestamp = now\<rparr>])
   \<and> vol_24h (volume pa) =
       (\<Sum>e\<leftarrow>filter (\<lambda>e. now - 86400000 \<le> ve_timestamp e)
              (volumeHistory s @ [\<lparr>ve_volume = va, ve_timestamp = now\<rparr>]). ve_volume e)
   \<and> vol_7d (volume pa) =
       (\<Sum>e\<leftarrow>filter (\<lambda>e. now - 604800000 \<le> ve_timestamp e)
              (volumeHistory s @ [\<lparr>ve_volume = va, ve_timestamp = now\<rparr>]). ve_volume e)
   \<and> vol_30d (volume pa) =
       (\<Sum>e\<leftarrow>filter (\<lambda>e. now - 2592000000 \<le> ve_timestamp e)
              (volumeHistory s @ [\<lparr>ve_volume = va, ve_timestamp = now\<rparr>]). ve_volume e)
   \<and> vol_24h (volume pb) = vol_24h (volume pa) + vb
   \<and> vol_7d (volume pb) = vol_7d (volume pa) + vb
   \<and> vol_30d (volume pb) = vol_30d (volume pa) + vb
   \<and> vol_total (volume pa) =
       (case poolsData s (toLowerCase a) of None \<Rightarrow> 0 | Some q \<Rightarrow> vol_total (volume q)) + va
   \<and> vol_total (volume pb) =
       (case poolsData s (toLowerCase b) of None \<Rightarrow> 0 | Some q \<Rightarrow> vol_total (volume q)) + vb"
proof -
  assume ne: "toLowerCase a \<noteq> toLowerCase b"
  let ?s1 = "recordSwapVolume s a va now"
  let ?s2 = "recordSwapVolume ?s1 b vb now"
  let ?log0 = "volumeHistory s @ [\<lparr>ve_volume = va, ve_timestamp = now\<rparr>]"
  obtain pa where pa: "poolsData ?s1 (toLowerCase a) = Some pa"
    and ta: "vol_total (volume pa) =
         (case poolsData s (toLowerCase a) of None \<Rightarrow> 0 | Some q \<Rightarrow> vol_total (volume q)) + va"
    and da: "vol_24h (volume pa) = windowSum (now - 86400000) ?log0"
    and wa: "vol_7d (volume pa) = windowSum (now - 604800000) ?log0"
    and ma: "vol_30d (volume pa) = windowSum (now - 2592000000) ?log0"
    using poolsData_recordSwapVolume_same [of s a va now] by blast
  have log1: "volumeHistory ?s1 = dropWhile (\<lambda>e. ve_timestamp e < now - 2592000000) ?log0"
    by (rule volumeHistory_recordSwapVolume)
  obtain pb where pb: "poolsData ?s2 (toLowerCase b) = Some pb"
    and tb: "vol_total (volume pb) =
         (case poolsData ?s1 (toLowerCase b) of None \<Rightarrow> 0 | Some q \<Rightarrow> vol_total (volume q)) + vb"
    and db: "vol_24h (volume pb) =
         windowSum (now - 86400000) (volumeHistory ?s1 @ [\<lparr>ve_volume = vb, ve_timestamp = now\<rparr>])"
    and wb: "vol_7d (volume pb) =
         windowSum (now - 604800000) (volumeHistory ?s1 @ [\<lparr>ve_volume = vb, ve_timestamp = now\<rparr>])"
    and mb: "vol_30d (volume pb) =
         windowSum (now - 2592000000) (volumeHistory ?s1 @ [\<lparr>ve_volume = vb, ve_timestamp = now\<rparr>])"
    using poolsData_recordSwapVolume_same [of ?s1 b vb now] by blast
  have pa2: "poolsData ?s2 (toLowerCase a) = Some pa"
    using ne pa by (simp add: poolsData_recordSwapVolume_other)
  have "poolsData ?s1 (toLowerCase b) = poolsData s (toLowerCase b)"
    using ne by (simp add: poolsData_recordSwapVolume_other)
  with tb have tb': "vol_total (volume pb) =
         (case poolsData s (toLowerCase b) of None \<Rightarrow> 0 | Some q \<Rightarrow> vol_total (volume q)) + vb"
    by simp
  have db': "vol_24h (volume pb) = vol_24h (volume pa) + vb"
    by (simp add: db da log1 windowSum_after_eviction)
  have wb': "vol_7d (volume pb) = vol_7d (volume pa) + vb"
    by (simp add: wb wa log1 windowSum_after_eviction)
  have mb': "vol_30d (volume pb) = vol_30d (volume pa) + vb"
    by (simp add: mb ma log1 windowSum_after_eviction)
  have log2: "volumeHistory ?s2 =
       dropWhile (\<lambda>e. ve_timestamp e < now - 2592000000)
         (volumeHistory ?s1 @ [\<lparr>ve_volume = vb, ve_timestamp = now\<rparr>])"
    by (rule volumeHistory_recordSwapVolume)
  note sums = da [unfolded windowSum_sum_list] wa [unfolded windowSum_sum_list]
    ma [unfolded windowSum_sum_list]
  show ?thesis
    by (intro exI conjI) (rule pa2 pb log1 log2 sums db' wb' mb' ta tb')+
qed

lemma toLowerCase_pools:
  "toLowerCase poolA = ''0xbb7eff3e685c6564f2f09dd90b6c05754e3bdac0''"
  "toLowerCase poolB = ''0x222705b830a38654b46340a99f5f3f1718a5c95d''"
  by (simp_all add: toLowerCase_def poolA_def poolB_def)

theorem C10_shared_volume_log_witness:
  "toLowerCase poolA \<noteq> toLowerCase poolB
   \<and> (\<exists>pa pb.
        poolsData (recordSwapVolume (recordSwapVolume fresh_service poolA 1 4000000000)
                     poolB 2 4000000000) (toLowerCase poolA) = Some pa
      \<and> poolsData (recordSwapVolume (recordSwapVolume fresh_service poolA 1 4000000000)
                     poolB 2 4000000000) (toLowerCase poolB) = Some pb
      \<and> vol_24h (volume pb) = vol_24h (volume pa) + 2
      \<and> vol_total (volume pa) = 1 \<and> vol_total (volume pb) = 2)"
proof -
  have h: "toLowerCase poolA \<noteq> toLowerCase poolB"
    by (simp add: toLowerCase_pools)
  have e: "poolsData fresh_service (toLowerCase poolA) = None"
    "poolsData fresh_service (toLowerCase poolB) = None"
    by (simp_all add: fresh_service_def)
  show ?thesis
    using C10_shared_volume_log [OF h, of fresh_service 1 4000000000 2] h e
    apply (elim exE conjE)
    subgoal for pa pb
      apply (rule conjI, assumption)
      apply (rule exI [of _ pa], rule exI [of _ pb])
      apply simp
      done
    done
qed

text \<open>
  A swap of amount 1 for pool A and then a swap of amount 2 for pool B, both at the clock
  reading 4000000000, on a service that has seen neither: pool A reports a 24h volume of
  1 and pool B one of 3.
\<close>

theorem C10_sums_differ_counterexample:
  "map_option (vol_24h \<circ> volume)
     (poolsData (recordSwapVolume (recordSwapVolume fresh_service poolA 1 4000000000)
                   poolB 2 4000000000) (toLowerCase poolA)) = Some 1
   \<and> map_option (vol_24h \<circ> volume)
     (poolsData (recordSwapVolume (recordSwapVolume fresh_service poolA 1 4000000000)
                   poolB 2 4000000000) (toLowerCase poolB)) = Some 3
   \<and> toLowerCase poolA \<noteq> toLowerCase poolB"
  by (simp add: recordSwapVolume_eq toLowerCase_pools fresh_service_def updateVolume_def
      windowSum_def createPoolData_def)

section \<open>Properties of the candle queries\<close>

lemma mapInterval_Nil: "mapInterval [] = None"
  by (simp add: mapInterval_def)

lemma parseInt_Nil: "parseInt [] = None"
  by (simp add: parseInt_def)

lemma parseTimestampParam_Some:
  "parseInt s = Some n \<Longrightarrow> parseTimestampParam (Some s) = Some (Some n)"
  by (auto simp: parseTimestampParam_def parseInt_Nil)

lemma filterOHLCByTimeRange_inRange:
  "f \<noteq> 0 \<Longrightarrow> t \<noteq> 0 \<Longrightarrow> filterOHLCByTimeRange cs (Some f) (Some t) = inRange f t cs"
  by (simp add: filterOHLCByTimeRange_def inRange_def Let_def)

lemma limitDatapoints_keepLast: "limitDatapoints xs iv = keepLast 100 xs"
proof -
  have "DATAPOINT_LIMITS iv = 100"
    by (cases iv) simp_all
  then show ?thesis
    by (simp add: limitDatapoints_def keepLast_def)
qed

lemma price_query_parsed:
  assumes "query ''interval'' = Some s" "mapInterval s = Some iv"
    and "query ''from_timestamp'' = Some fs" "parseInt fs = Some f"
    and "query ''to_timestamp'' = Some ts" "parseInt ts = Some t"
  shows "price_query p query =
     (if truthy (Some f) \<and> truthy (Some t) \<and> f > t
      then Status400 ''from_timestamp cannot be greater than to_timestamp''
      else Json \<lparr>qr_interval = iv, qr_from_timestamp = Some f, qr_to_timestamp = Some t,
                 qr_count = length (limitDatapoints
                                      (filterOHLCByTimeRange (ohlc p iv) (Some f) (Some t)) iv),
                 qr_ohlc = limitDatapoints
                             (filterOHLCByTimeRange (ohlc p iv) (Some f) (Some t)) iv,
                 qr_lastUpdated = lastUpdated p\<rparr>)"
proof -
  have "s \<noteq> []"
    using assms(2) by (auto simp: mapInterval_Nil)
  then show ?thesis
    using assms
    by (simp add: price_query_def parseTimestampParam_Some Let_def del: truthy.simps)
qed

text \<open>
  A range with non-zero bounds and \<open>from > to\<close> is rejected with a 400.
\<close>

lemma price_query_rejects_reversed_range:
  assumes "query ''interval'' = Some s" "mapInterval s = Some iv"
    and "query ''from_timestamp'' = Some fs" "parseInt fs = Some f"
    and "query ''to_timestamp'' = Some ts" "parseInt ts = Some t"
    and "f \<noteq> 0" "t \<noteq> 0" "f > t"
  shows "price_query p query = Status400 ''from_timestamp cannot be greater than to_timestamp''"
  using assms(7-9) by (simp add: price_query_parsed [OF assms(1-6)])

lemma keepLast_split: "dropFirst n xs @ keepLast n xs = xs"
  by (simp add: dropFirst_def keepLast_def)

lemma keepLast_drops_head:
  "n \<le> length xs \<Longrightarrow> keepLast n (x # xs) = keepLast n xs"
  by (simp add: keepLast_def Suc_diff_le)

text \<open>
  In a list in timestamp order no entry left out by the limit is more recent than an entry
  kept.
\<close>

lemma keepLast_most_recent:
  assumes "sorted (map timestamp xs)"
    and "d \<in> set (dropFirst n xs)" "k \<in> set (keepLast n xs)"
  shows "timestamp d \<le> timestamp k"
proof -
  have "sorted (map timestamp (dropFirst n xs @ keepLast n xs))"
    using assms(1) by (simp only: keepLast_split)
  then show ?thesis
    using assms(2,3) by (auto simp: sorted_append)
qed

lemma sorted_inRange:
  "sorted (map timestamp cs) \<Longrightarrow> sorted (map timestamp (inRange f t cs))"
  by (simp add: inRange_def sorted_filter)

text \<open>
  C8 (as the code has it). A candle query whose \<open>from_timestamp\<close> and \<open>to_timestamp\<close>
  parse to non-zero numbers with \<open>from \<le> to\<close> returns the candles of the interval whose
  timestamp lies in the inclusive range \<open>[from, to]\<close>, truncated to at most 100 entries,
  the cap of every interval, by keeping the last ones in stored order and leaving out the
  ones before them. When the stored list is in timestamp order, the entries kept are the
  most recent ones: none left out has a later timestamp than one kept. The query has no
  limit parameter: whatever else \<open>req.query\<close> holds does not change the reply.
\<close>

theorem C8_price_query:
  "query ''interval'' = Some s \<Longrightarrow> mapInterval s = Some iv \<Longrightarrow>
   query ''from_timestamp'' = Some fs \<Longrightarrow> parseInt fs = Some f \<Longrightarrow> f \<noteq> 0 \<Longrightarrow>
   query ''to_timestamp'' = Some ts \<Longrightarrow> parseInt ts = Some t \<Longrightarrow> t \<noteq> 0 \<Longrightarrow> f \<le> t \<Longrightarrow>
   price_query p query =
     Json \<lparr>qr_interval = iv, qr_from_timestamp = Some f, qr_to_timestamp = Some t,
           qr_count = length (keepLast 100 (inRange f t (ohlc p iv))),
           qr_ohlc = keepLast 100 (inRange f t (ohlc p iv)),
           qr_lastUpdated = lastUpdated p\<rparr>
   \<and> length (keepLast 100 (inRange f t (ohlc p iv))) \<le> 100
   \<and> dropFirst 100 (inRange f t (ohlc p iv)) @ keepLast 100 (inRange f t (ohlc p iv))
       = inRange f t (ohlc p iv)
   \<and> (sorted (map timestamp (ohlc p iv)) \<longrightarrow>
        (\<forall>d \<in> set (dropFirst 100 (inRange f t (ohlc p iv))).
         \<forall>k \<in> set (keepLast 100 (inRange f t (ohlc p iv))).
           timestamp d \<le> timestamp k))"
proof -
  assume a: "query ''interval'' = Some s" "mapInterval s = Some iv"
    "query ''from_timestamp'' = Some fs" "parseInt fs = Some f"
    "query ''to_timestamp'' = Some ts" "parseInt ts = Some t"
    and nz: "f \<noteq> 0" "t \<noteq> 0" and le: "f \<le> t"
  have reply: "price_query p query =
     Json \<lparr>qr_interval = iv, qr_from_timestamp = Some f, qr_to_timestamp = Some t,
           qr_count = length (keepLast 100 (inRange f t (ohlc p iv))),
           qr_ohlc = keepLast 100 (inRange f t (ohlc p iv)),
           qr_lastUpdated = lastUpdated p\<rparr>"
    using nz le
    by (simp add: price_query_parsed [OF a] filterOHLCByTimeRange_inRange
        limitDatapoints_keepLast)
  have len: "length (keepLast 100 (inRange f t (ohlc p iv))) \<le> 100"
    by (simp add: keepLast_def)
  have split: "dropFirst 100 (inRange f t (ohlc p iv)) @ keepLast 100 (inRange f t (ohlc p iv))
       = inRange f t (ohlc p iv)"
    by (rule keepLast_split)
  have recent: "timestamp d \<le> timestamp k"
    if "sorted (map timestamp (ohlc p iv))"
      "d \<in> set (dropFirst 100 (inRange f t (ohlc p iv)))"
      "k \<in> set (keepLast 100 (inRange f t (ohlc p iv)))" for d k
    using keepLast_most_recent [OF sorted_inRange [OF that(1)] that(2,3)] .
  from reply len split recent show ?thesis
    by blast
qed

lemma query_all_hours_lookup:
  "query_all_hours ''interval'' = Some ''1h''"
  "query_all_hours ''from_timestamp'' = Some ''3600000''"
  "query_all_hours ''to_timestamp'' = Some ''363600000''"
  by (simp_all add: query_all_hours_def)

lemma hundred_one_hours_ohlc: "ohlc hundred_one_hours I1h = map hour_candle [1..101]"
  by (simp add: hundred_one_hours_def del: upto_rec_numeral)

lemma hundred_one_hours_inRange:
  "inRange 3600000 363600000 (map hour_candle [1..101]) = map hour_candle [1..101]"
  unfolding inRange_def
  by (rule filter_True) (auto simp: hour_candle_def simp del: upto_rec_numeral)

lemma hundred_one_hours_sorted: "sorted (map timestamp (map hour_candle [1..101]))"
proof -
  have "sorted_wrt (\<lambda>x y. timestamp (hour_candle x) \<le> timestamp (hour_candle y)) [1..101]"
    by (rule sorted_wrt_mono_rel [where P = "(\<le>)"])
      (simp_all add: hour_candle_def del: upto_rec_numeral)
  then show ?thesis
    by (simp only: sorted_map sorted_wrt_map)
qed

theorem C8_price_query_witness:
  "sorted (map timestamp (ohlc hundred_one_hours I1h))
   \<and> price_query hundred_one_hours query_all_hours =
       Json \<lparr>qr_interval = I1h, qr_from_timestamp = Some 3600000,
             qr_to_timestamp = Some 363600000, qr_count = 100,
             qr_ohlc = map hour_candle [2..101], qr_lastUpdated = None\<rparr>
   \<and> dropFirst 100 (inRange 3600000 363600000 (ohlc hundred_one_hours I1h)) = [hour_candle 1]
   \<and> timestamp (hour_candle 1) \<le> timestamp (hour_candle 101)"
proof -
  have iv: "mapInterval ''1h'' = Some I1h"
    by (simp add: mapInterval_def)
  have f: "parseInt ''3600000'' = Some 3600000" and t: "parseInt ''363600000'' = Some 363600000"
    by (simp_all add: parseInt_def isWhiteSpace_def isRadixDigit_def digitValue_def
        digitsValue_def)
  have nz: "(3600000::int) \<noteq> 0" "(363600000::int) \<noteq> 0"
    and le: "(3600000::int) \<le> 363600000"
    by simp_all
  have s: "sorted (map timestamp (ohlc hundred_one_hours I1h))"
    by (simp only: hundred_one_hours_ohlc hundred_one_hours_sorted)
  have u: "[1..101] = 1 # [2..101::int]"
    using upto_rec1 [of 1 101] by (simp del: upto_rec_numeral)
  have r: "inRange 3600000 363600000 (ohlc hundred_one_hours I1h) = map hour_candle [1..101]"
    by (simp only: hundred_one_hours_ohlc hundred_one_hours_inRange)
  have n: "length [2..101::int] = 100"
    by (simp del: upto_rec_numeral)
  have k: "keepLast 100 (map hour_candle [1..101]) = map hour_candle [2..101]"
    by (simp add: keepLast_def u n del: upto_rec_numeral)
  have d: "dropFirst 100 (map hour_candle [1..101]) = [hour_candle 1]"
    by (simp add: dropFirst_def u n del: upto_rec_numeral)
  have l: "lastUpdated hundred_one_hours = None"
    by (simp add: hundred_one_hours_def createPoolData_def del: upto_rec_numeral)
  have m: "hour_candle 101 \<in> set (map hour_candle [2..101])"
    by (simp del: upto_rec_numeral)
  from C8_price_query [OF query_all_hours_lookup(1) iv query_all_hours_lookup(2) f nz(1)
      query_all_hours_lookup(3) t nz(2) le, of hundred_one_hours] s m
  show ?thesis
    by (simp only: r k d l) (simp del: upto_rec_numeral)
qed

text \<open>
  Scenario B fails: with \<open>limit=5\<close> in the query and 20 candles in the range, the reply
  holds all 20 candles.
\<close>

theorem C8_limit_ignored_counterexample:
  "price_query twenty_hours query_limit5 =
     Json \<lparr>qr_interval = I1h, qr_from_timestamp = Some 3600000, qr_to_timestamp = Some 72000000,
           qr_count = 20, qr_ohlc = ohlc twenty_hours I1h, qr_lastUpdated = None\<rparr>
   \<and> length (ohlc twenty_hours I1h) = 20
   \<and> query_limit5 ''limit'' = Some ''5''"
  by (simp add: price_query_def query_limit5_def mapInterval_def parseTimestampParam_def
      parseInt_def isWhiteSpace_def isRadixDigit_def digitValue_def digitsValue_def
      filterOHLCByTimeRange_def limitDatapoints_def twenty_hours_def createPoolData_def)

text \<open>
  C9. The query \<open>interval=1h&from_timestamp=3600000&to_timestamp=0\<close> has both timestamps
  provided and \<open>from > to\<close>, yet the handler does not answer with a 400: the number 0 is
  falsy, the range check is skipped, the upper bound is ignored, and the reply lists all 20
  candles.
\<close>

theorem C9_to_zero_not_rejected:
  "price_query twenty_hours query_to_zero =
     Json \<lparr>qr_interval = I1h, qr_from_timestamp = Some 3600000, qr_to_timestamp = Some 0,
           qr_count = 20, qr_ohlc = ohlc twenty_hours I1h, qr_lastUpdated = None\<rparr>"
  by (simp add: price_query_def query_to_zero_def mapInterval_def parseTimestampParam_def
      parseInt_def isWhiteSpace_def isRadixDigit_def digitValue_def digitsValue_def
      filterOHLCByTimeRange_def limitDatapoints_def twenty_hours_def createPoolData_def)

end
